theory Spec2Isabelle
  imports Main
begin

section \<open>The thread pool of \<^verbatim>\<open>threadpool/threadpool.h\<close>\<close>

text \<open>
  The class template \<^verbatim>\<open>threadpool<T>\<close> is embedded as a record of its members and a
  small-step semantics of its member functions: every statement of \<^verbatim>\<open>append\<close> and
  \<^verbatim>\<open>run\<close> is one atomic step of the thread that executes it, and a run of the program is
  an arbitrary interleaving of such steps.  A task pointer \<^verbatim>\<open>T*\<close> is an option value,
  \<open>None\<close> being the null pointer.
\<close>

type_synonym tid = nat

type_synonym 'a ptr = "'a option"

text \<open>
  Modelled from the spec: the classes \<^verbatim>\<open>locker\<close> and \<^verbatim>\<open>sem\<close> of
  \<^verbatim>\<open>lock/locker.h\<close>, which is not among the sources.  The spec calls them a
  mutual-exclusion lock and a counting semaphore: the lock is the thread that owns it, if
  any; the semaphore is its count.
\<close>

type_synonym locker = "tid option"

type_synonym sem = nat

record 'a threadpool =
  m_thread_number :: int
  m_max_requests :: int
  m_threads :: "tid list option"
  m_workqueue :: "'a ptr list"
  m_queuelocker :: locker
  m_queuestat :: sem
  m_stop :: bool
  m_connPool :: nat

text \<open>
  What a step does is recorded in a history (a ghost variable the code never reads).
  Modelled from the spec: \<^verbatim>\<open>connectionRAII\<close> of \<^verbatim>\<open>CGImysql/sql_connection_pool.h\<close>, which is
  not among the sources: its constructor checks one handle out of the connection pool
  (\<open>EvAcquire\<close>), its destructor, run where the scope of \<^verbatim>\<open>mysqlcon\<close> ends, returns it
  (\<open>EvRelease\<close>).  \<open>EvProcess\<close> is the call of \<^verbatim>\<open>process()\<close>, \<open>EvThrow\<close> an exception that
  leaves it.
\<close>

datatype 'a event =
    EvCall "'a ptr"
  | EvLock
  | EvUnlock
  | EvPush "'a ptr"
  | EvPost
  | EvReturn bool
  | EvWait
  | EvPop "'a ptr"
  | EvAcquire "'a ptr"
  | EvProcess "'a ptr"
  | EvRelease "'a ptr"
  | EvThrow "'a ptr"

text \<open>
  The program counter of a thread: the statement it executes next, with the value of its
  local variable \<^verbatim>\<open>request\<close>.  The constructors are named after the lines of
  \<^verbatim>\<open>append\<close> (lines 126 to 140) and \<^verbatim>\<open>run\<close> (lines 163 to 194).  A thread at
  \<open>R_terminate\<close> has let an exception out of \<^verbatim>\<open>run\<close>.
\<close>

datatype 'a pc =
    Idle
  | A_lock "'a ptr"
  | A_check "'a ptr"
  | A_unlock_full "'a ptr"
  | A_push "'a ptr"
  | A_unlock
  | A_post
  | A_return bool
  | R_while
  | R_wait
  | R_lock
  | R_empty
  | R_unlock_empty
  | R_front
  | R_pop_front "'a ptr"
  | R_unlock "'a ptr"
  | R_null "'a ptr"
  | R_acquire "'a ptr"
  | R_process "'a ptr"
  | R_release "'a ptr"
  | R_exit
  | R_terminate "'a ptr"
  | Undefined_behaviour

text \<open>
  \<^verbatim>\<open>m_workqueue.size() > m_max_requests\<close> compares a \<^verbatim>\<open>size_t\<close> with an \<^verbatim>\<open>int\<close>: the
  \<^verbatim>\<open>int\<close> is converted to the unsigned 64-bit type first.
\<close>

definition queue_exceeds :: "'a threadpool \<Rightarrow> bool" where
  "queue_exceeds p = (int (length (m_workqueue p)) > m_max_requests p mod 2 ^ 64)"

text \<open>
  One step of thread \<open>t\<close> on the pool \<open>p\<close>: the pool after the step, the next program
  counter and the events of the step.  \<open>None\<close>: the thread cannot move (it waits for the
  lock or for the semaphore, or it is not inside a member function).
\<close>

fun thread_step :: "tid \<Rightarrow> 'a threadpool \<Rightarrow> 'a pc \<Rightarrow> ('a threadpool \<times> 'a pc \<times> 'a event list) option" where
  "thread_step t p (A_lock r) =
     (if m_queuelocker p = None then Some (p\<lparr>m_queuelocker := Some t\<rparr>, A_check r, [EvLock])
      else None)"
| "thread_step t p (A_check r) =
     Some (p, if queue_exceeds p then A_unlock_full r else A_push r, [])"
| "thread_step t p (A_unlock_full r) =
     Some (p\<lparr>m_queuelocker := None\<rparr>, A_return False, [EvUnlock])"
| "thread_step t p (A_push r) =
     Some (p\<lparr>m_workqueue := m_workqueue p @ [r]\<rparr>, A_unlock, [EvPush r])"
| "thread_step t p A_unlock =
     Some (p\<lparr>m_queuelocker := None\<rparr>, A_post, [EvUnlock])"
| "thread_step t p A_post =
     Some (p\<lparr>m_queuestat := m_queuestat p + 1\<rparr>, A_return True, [EvPost])"
| "thread_step t p (A_return b) =
     Some (p, Idle, [EvReturn b])"
| "thread_step t p R_while =
     Some (p, if \<not> m_stop p then R_wait else R_exit, [])"
| "thread_step t p R_wait =
     (if 0 < m_queuestat p then Some (p\<lparr>m_queuestat := m_queuestat p - 1\<rparr>, R_lock, [EvWait])
      else None)"
| "thread_step t p R_lock =
     (if m_queuelocker p = None then Some (p\<lparr>m_queuelocker := Some t\<rparr>, R_empty, [EvLock])
      else None)"
| "thread_step t p R_empty =
     Some (p, if m_workqueue p = [] then R_unlock_empty else R_front, [])"
| "thread_step t p R_unlock_empty =
     Some (p\<lparr>m_queuelocker := None\<rparr>, R_while, [EvUnlock])"
| "thread_step t p R_front =
     (case m_workqueue p of
        [] \<Rightarrow> Some (p, Undefined_behaviour, [])
      | r # q \<Rightarrow> Some (p, R_pop_front r, []))"
| "thread_step t p (R_pop_front r) =
     (case m_workqueue p of
        [] \<Rightarrow> Some (p, Undefined_behaviour, [])
      | r' # q \<Rightarrow> Some (p\<lparr>m_workqueue := q\<rparr>, R_unlock r, [EvPop r]))"
| "thread_step t p (R_unlock r) =
     Some (p\<lparr>m_queuelocker := None\<rparr>, R_null r, [EvUnlock])"
| "thread_step t p (R_null r) =
     Some (p, if r = None then R_while else R_acquire r, [])"
| "thread_step t p (R_acquire r) =
     Some (p, R_process r, [EvAcquire r])"
| "thread_step t p (R_process r) =
     Some (p, R_release r, [EvProcess r])"
| "thread_step t p (R_release r) =
     Some (p, R_while, [EvRelease r])"
| "thread_step t p R_exit = None"
| "thread_step t p (R_terminate r) = None"
| "thread_step t p Idle = None"
| "thread_step t p Undefined_behaviour = None"

text \<open>
  \<^verbatim>\<open>process()\<close> is a member of the task type \<open>T\<close>, which the template leaves open: a call
  returns, which is the step of \<open>R_process\<close> above, or it throws.  Neither \<^verbatim>\<open>run\<close> (lines
  163 to 194) nor \<^verbatim>\<open>worker\<close> (lines 147 to 157) has a handler, so an exception that
  \<^verbatim>\<open>process()\<close> throws leaves the function the thread was started with: no handler is
  found and \<^verbatim>\<open>std::terminate\<close> is called.  Whether the stack is unwound before that is
  left to the implementation; with the POSIX threads the sources use (g++ on Linux) it is
  not, so the destructor of \<^verbatim>\<open>mysqlcon\<close> is not run.  The thread makes no further step.
\<close>

fun throws :: "'a pc \<Rightarrow> ('a pc \<times> 'a event list) option" where
  "throws (R_process r) = Some (R_terminate r, [EvProcess r, EvThrow r])"
| "throws c = None"

text \<open>The destructor, lines 115 to 120: \<^verbatim>\<open>delete[] m_threads; m_stop = true;\<close>\<close>

definition threadpool_dtor :: "'a threadpool \<Rightarrow> 'a threadpool" where
  "threadpool_dtor p = p\<lparr>m_threads := None, m_stop := True\<rparr>"

text \<open>
  The program: the pool, the program counter of every thread and the history.
\<close>

record 'a system =
  pool :: "'a threadpool"
  pcs :: "tid \<Rightarrow> 'a pc"
  history :: "(tid \<times> 'a event) list"

text \<open>
  What can happen next: a thread outside the pool's member functions calls
  \<^verbatim>\<open>append(r)\<close>; a thread executes its next statement; the call of \<^verbatim>\<open>process()\<close> a
  worker is at throws; the pool is destroyed; and, modelled from the spec (which has the
  worker wake spuriously), \<^verbatim>\<open>m_queuestat.wait()\<close> returns to a worker without having
  decremented the semaphore.  An action that is not possible in the state leaves it as it
  is.  \<^verbatim>\<open>std::terminate\<close> ends the whole program; here it ends the thread, so that the
  runs of the model are the runs of the program and more.
\<close>

datatype 'a action =
    Call tid "'a ptr"
  | Step tid
  | Spurious tid
  | Throw tid
  | Destroy

fun fire :: "'a system \<Rightarrow> 'a action \<Rightarrow> 'a system" where
  "fire s (Call t r) =
     (if pcs s t = Idle
      then s\<lparr>pcs := (pcs s)(t := A_lock r), history := history s @ [(t, EvCall r)]\<rparr>
      else s)"
| "fire s (Step t) =
     (case thread_step t (pool s) (pcs s t) of
        None \<Rightarrow> s
      | Some (p, c, es) \<Rightarrow>
          \<lparr>pool = p, pcs = (pcs s)(t := c), history = history s @ map (Pair t) es\<rparr>)"
| "fire s (Spurious t) =
     (if pcs s t = R_wait
      then s\<lparr>pcs := (pcs s)(t := R_lock), history := history s @ [(t, EvWait)]\<rparr>
      else s)"
| "fire s (Throw t) =
     (case throws (pcs s t) of
        None \<Rightarrow> s
      | Some (c, es) \<Rightarrow> s\<lparr>pcs := (pcs s)(t := c), history := history s @ map (Pair t) es\<rparr>)"
| "fire s Destroy = s\<lparr>pool := threadpool_dtor (pool s)\<rparr>"

fun exec :: "'a system \<Rightarrow> 'a action list \<Rightarrow> 'a system" where
  "exec s [] = s"
| "exec s (a # as) = exec (fire s a) as"

text \<open>
  A call of \<^verbatim>\<open>append(r)\<close> by thread \<open>t\<close> that no other thread interferes with: the call
  and the six statements on either path through the function (a path ends after five).
\<close>

definition append_alone :: "tid \<Rightarrow> 'a ptr \<Rightarrow> 'a action list" where
  "append_alone t r = [Call t r, Step t, Step t, Step t, Step t, Step t, Step t]"

subsection \<open>The constructor\<close>

text \<open>
  The constructor, lines 71 to 111.  What the environment decides is a parameter: whether
  \<^verbatim>\<open>new pthread_t[m_thread_number]\<close> succeeds, and for every index whether
  \<^verbatim>\<open>pthread_create\<close> and \<^verbatim>\<open>pthread_detach\<close> return 0.  The thread created at index
  \<open>i\<close> has the identifier \<open>i\<close>; the result lists the threads created, which run
  \<^verbatim>\<open>worker\<close> from then on, and gives either the exception thrown or the pool constructed.
\<close>

datatype exn = Std_exception | Bad_alloc

function spawn_workers :: "(int \<Rightarrow> bool) \<Rightarrow> (int \<Rightarrow> bool) \<Rightarrow> int \<Rightarrow> int \<Rightarrow> tid list \<times> bool" where
  "spawn_workers create_ok detach_ok thread_number i =
     (if i < thread_number then
        (if \<not> create_ok i then ([], False)
         else if \<not> detach_ok i then ([nat i], False)
         else (case spawn_workers create_ok detach_ok thread_number (i + 1) of
                 (ws, ok) \<Rightarrow> (nat i # ws, ok)))
      else ([], True))"
  by pat_completeness auto
termination
  by (relation "measure (\<lambda>(c, d, n, i). nat (n - i))") auto

declare spawn_workers.simps [simp del]

text \<open>
  The member initialisers of line 73; the queue, the lock and the semaphore are
  default-constructed: an empty list, a free lock, and (modelled from the spec, whose
  semaphore counts the pending entries) the count 0.
\<close>

definition member_init :: "nat \<Rightarrow> int \<Rightarrow> int \<Rightarrow> 'a threadpool" where
  "member_init connPool thread_number max_requests =
     \<lparr>m_thread_number = thread_number, m_max_requests = max_requests, m_threads = None,
      m_workqueue = [], m_queuelocker = None, m_queuestat = 0, m_stop = False,
      m_connPool = connPool\<rparr>"

definition threadpool_ctor ::
  "nat \<Rightarrow> int \<Rightarrow> int \<Rightarrow> bool \<Rightarrow> (int \<Rightarrow> bool) \<Rightarrow> (int \<Rightarrow> bool) \<Rightarrow> tid list \<times> (exn + 'a threadpool)" where
  "threadpool_ctor connPool thread_number max_requests alloc_ok create_ok detach_ok =
     (if thread_number \<le> 0 \<or> max_requests \<le> 0 then ([], Inl Std_exception)
      else if \<not> alloc_ok then ([], Inl Bad_alloc)
      else (case spawn_workers create_ok detach_ok thread_number 0 of
              (ws, False) \<Rightarrow> (ws, Inl Std_exception)
            | (ws, True) \<Rightarrow>
                (ws, Inr ((member_init connPool thread_number max_requests)
                            \<lparr>m_threads := Some ws\<rparr>))))"

text \<open>
  The program once the constructor has returned the pool \<open>p\<close>: the threads \<open>ws\<close> it
  created are at the top of the loop of \<^verbatim>\<open>run\<close>, every other thread is outside the pool.
\<close>

definition init_system :: "'a threadpool \<Rightarrow> tid list \<Rightarrow> 'a system" where
  "init_system p ws =
     \<lparr>pool = p, pcs = (\<lambda>t. if t \<in> set ws then R_while else Idle), history = []\<rparr>"

subsection \<open>Reading the history\<close>

text \<open>The tasks enqueued and the tasks dequeued, each in the order it happened.\<close>

fun pushed :: "(tid \<times> 'a event) list \<Rightarrow> 'a ptr list" where
  "pushed [] = []"
| "pushed ((t, EvPush r) # h) = r # pushed h"
| "pushed (e # h) = pushed h"

fun popped :: "(tid \<times> 'a event) list \<Rightarrow> 'a ptr list" where
  "popped [] = []"
| "popped ((t, EvPop r) # h) = r # popped h"
| "popped (e # h) = popped h"

text \<open>The number of posts of the semaphore.\<close>

fun posted :: "(tid \<times> 'a event) list \<Rightarrow> nat" where
  "posted [] = 0"
| "posted ((t, EvPost) # h) = Suc (posted h)"
| "posted (e # h) = posted h"

text \<open>What an action has added to the history.\<close>

definition added :: "'a system \<Rightarrow> 'a action \<Rightarrow> (tid \<times> 'a event) list" where
  "added s a = drop (length (history s)) (history (fire s a))"

text \<open>The events of one thread.\<close>

definition events_of :: "tid \<Rightarrow> (tid \<times> 'a event) list \<Rightarrow> 'a event list" where
  "events_of t h = map snd (filter (\<lambda>e. fst e = t) h)"

text \<open>
  The part of the history one thread has made, and what a call of \<^verbatim>\<open>append\<close> that has not
  yet returned has already done: the statements after line 138 come after its post, the
  statements after line 134 after its push.
\<close>

definition own :: "tid \<Rightarrow> (tid \<times> 'a event) list \<Rightarrow> (tid \<times> 'a event) list" where
  "own t h = filter (\<lambda>e. fst e = t) h"

fun posting :: "'a pc \<Rightarrow> nat" where
  "posting (A_return b) = (if b then 1 else 0)"
| "posting c = 0"

fun pushing :: "'a pc \<Rightarrow> nat" where
  "pushing A_unlock = 1"
| "pushing A_post = 1"
| "pushing (A_return b) = (if b then 1 else 0)"
| "pushing c = 0"

text \<open>
  The statements between \<^verbatim>\<open>m_queuelocker.lock()\<close> and \<^verbatim>\<open>m_queuelocker.unlock()\<close>.
\<close>

fun holds_lock :: "'a pc \<Rightarrow> bool" where
  "holds_lock (A_check r) = True"
| "holds_lock (A_unlock_full r) = True"
| "holds_lock (A_push r) = True"
| "holds_lock A_unlock = True"
| "holds_lock R_empty = True"
| "holds_lock R_unlock_empty = True"
| "holds_lock R_front = True"
| "holds_lock (R_pop_front r) = True"
| "holds_lock (R_unlock r) = True"
| "holds_lock c = False"

text \<open>
  What the statement a thread is at needs of the queue: \<^verbatim>\<open>front()\<close> and \<^verbatim>\<open>pop_front()\<close>
  need a queue that is not empty, \<^verbatim>\<open>pop_front()\<close> removes the task that \<^verbatim>\<open>front()\<close>
  returned, and no thread has run into undefined behaviour.
\<close>

fun queue_ok :: "'a threadpool \<Rightarrow> 'a pc \<Rightarrow> bool" where
  "queue_ok p R_front = (m_workqueue p \<noteq> [])"
| "queue_ok p (R_pop_front r) = (case m_workqueue p of [] \<Rightarrow> False | r' # q \<Rightarrow> r' = r)"
| "queue_ok p Undefined_behaviour = False"
| "queue_ok p c = True"

definition thread_inv :: "tid \<Rightarrow> 'a threadpool \<Rightarrow> 'a pc \<Rightarrow> bool" where
  "thread_inv t p c = (holds_lock c = (m_queuelocker p = Some t) \<and> queue_ok p c)"

definition sys_inv :: "'a system \<Rightarrow> bool" where
  "sys_inv s = ((\<forall>t. thread_inv t (pool s) (pcs s t)) \<and>
     popped (history s) @ m_workqueue (pool s) = pushed (history s))"

text \<open>The statements of \<^verbatim>\<open>run\<close>: a thread at one of them is a worker.\<close>

fun in_run :: "'a pc \<Rightarrow> bool" where
  "in_run Idle = False"
| "in_run (A_lock r) = False"
| "in_run (A_check r) = False"
| "in_run (A_unlock_full r) = False"
| "in_run (A_push r) = False"
| "in_run A_unlock = False"
| "in_run A_post = False"
| "in_run (A_return b) = False"
| "in_run c = True"

subsection \<open>Protocols on the events of one thread\<close>

text \<open>
  A protocol is an automaton on events; a list of events follows it when the automaton
  accepts every event in turn.  The result is the state reached, \<open>None\<close> when an event
  was refused.
\<close>

fun follow :: "('q \<Rightarrow> 'e \<Rightarrow> 'q option) \<Rightarrow> 'q \<Rightarrow> 'e list \<Rightarrow> 'q option" where
  "follow d q [] = Some q"
| "follow d q (e # es) = (case d q e of None \<Rightarrow> None | Some q' \<Rightarrow> follow d q' es)"

text \<open>
  One call of \<^verbatim>\<open>append\<close>, as the claim on its atomicity has it: a call that returns
  false has locked and unlocked and done nothing else; a call that returns true has
  locked, pushed its argument, unlocked and then posted, each once.
\<close>

datatype 'a append_phase =
    Not_appending
  | Called "'a ptr"
  | Locked "'a ptr"
  | Rejected
  | Pushed
  | Unlocked
  | Posted

fun append_protocol :: "'a append_phase \<Rightarrow> 'a event \<Rightarrow> 'a append_phase option" where
  "append_protocol Not_appending (EvCall r) = Some (Called r)"
| "append_protocol (Called r) EvLock = Some (Locked r)"
| "append_protocol (Locked r) EvUnlock = Some Rejected"
| "append_protocol Rejected (EvReturn b) = (if b then None else Some Not_appending)"
| "append_protocol (Locked r) (EvPush r') = (if r' = r then Some Pushed else None)"
| "append_protocol Pushed EvUnlock = Some Unlocked"
| "append_protocol Unlocked EvPost = Some Posted"
| "append_protocol Posted (EvReturn b) = (if b then Some Not_appending else None)"
| "append_protocol q e = None"

fun append_phase_of :: "'a pc \<Rightarrow> 'a append_phase" where
  "append_phase_of (A_lock r) = Called r"
| "append_phase_of (A_check r) = Locked r"
| "append_phase_of (A_unlock_full r) = Locked r"
| "append_phase_of (A_push r) = Locked r"
| "append_phase_of A_unlock = Pushed"
| "append_phase_of A_post = Unlocked"
| "append_phase_of (A_return b) = (if b then Posted else Rejected)"
| "append_phase_of c = Not_appending"

text \<open>
  A worker dequeues at most once per wait: \<^verbatim>\<open>pop_front()\<close> is accepted only when the
  worker has waited on the semaphore since it last dequeued.
\<close>

fun pop_protocol :: "bool \<Rightarrow> 'a event \<Rightarrow> bool option" where
  "pop_protocol waited EvWait = Some True"
| "pop_protocol waited (EvPop r) = (if waited then Some False else None)"
| "pop_protocol waited e = Some waited"

fun about_to_pop :: "'a pc \<Rightarrow> bool" where
  "about_to_pop R_lock = True"
| "about_to_pop R_empty = True"
| "about_to_pop R_front = True"
| "about_to_pop (R_pop_front r) = True"
| "about_to_pop c = False"

text \<open>
  Scoped acquisition of the database handle: \<^verbatim>\<open>process()\<close> runs on a task only right
  after a handle was acquired for that task; when it returns the handle is released right
  after, when it throws the handle stays out (\<open>Leaked\<close>) and the thread does nothing more;
  and while a handle is out the worker does nothing else (it does not wait, lock or
  dequeue).
\<close>

datatype 'a scope_phase =
    No_handle
  | Holding "'a ptr"
  | Processed "'a ptr"
  | Leaked "'a ptr"

fun scope_protocol :: "'a scope_phase \<Rightarrow> 'a event \<Rightarrow> 'a scope_phase option" where
  "scope_protocol No_handle (EvAcquire r) = Some (Holding r)"
| "scope_protocol No_handle (EvProcess r) = None"
| "scope_protocol No_handle (EvRelease r) = None"
| "scope_protocol No_handle (EvThrow r) = None"
| "scope_protocol No_handle e = Some No_handle"
| "scope_protocol (Holding r) (EvProcess r') = (if r' = r then Some (Processed r) else None)"
| "scope_protocol (Holding r) e = None"
| "scope_protocol (Processed r) (EvRelease r') = (if r' = r then Some No_handle else None)"
| "scope_protocol (Processed r) (EvThrow r') = (if r' = r then Some (Leaked r) else None)"
| "scope_protocol (Processed r) e = None"
| "scope_protocol (Leaked r) e = None"

fun scope_phase_of :: "'a pc \<Rightarrow> 'a scope_phase" where
  "scope_phase_of (R_process r) = Holding r"
| "scope_phase_of (R_release r) = Processed r"
| "scope_phase_of (R_terminate r) = Leaked r"
| "scope_phase_of c = No_handle"

subsection \<open>An example run\<close>

text \<open>
  The pool a constructor call without failures returns, and a run of it: the workers are
  threads 0 and 1, threads 2 and 3 call \<^verbatim>\<open>append\<close>.
\<close>

definition example_pool :: "int \<Rightarrow> int \<Rightarrow> tid list \<Rightarrow> nat threadpool" where
  "example_pool thread_number max_requests ws =
     (member_init 0 thread_number max_requests)\<lparr>m_threads := Some ws\<rparr>"

definition example_run :: "nat action list" where
  "example_run =
     [Step 0, Step 1, Spurious 1, Step 1, Step 1, Step 1, Step 1,
      Call 2 (Some 10), Step 2, Call 3 (Some 20), Step 3, Step 2, Step 2, Step 2, Step 3,
      Step 2, Step 2,
      Step 0, Step 3, Step 3, Step 0, Step 3, Step 3, Step 3,
      Step 0, Step 1, Step 0, Step 0, Step 1, Step 0, Step 0, Step 1, Step 0, Step 0,
      Step 1, Step 0, Step 1, Step 1, Step 0, Step 1, Step 1, Step 1, Destroy, Step 0,
      Step 1]"

text \<open>The thread an action belongs to.\<close>

fun actor :: "'a action \<Rightarrow> tid option" where
  "actor (Call t r) = Some t"
| "actor (Step t) = Some t"
| "actor (Spurious t) = Some t"
| "actor (Throw t) = Some t"
| "actor Destroy = None"

text \<open>
  The invariant behind the one-dequeue-per-wait protocol: the events of the thread follow
  the protocol, and a worker between its wait and its \<^verbatim>\<open>pop_front()\<close> has waited since
  it last dequeued.
\<close>

fun pop_ok :: "bool option \<Rightarrow> 'a pc \<Rightarrow> bool" where
  "pop_ok None c = False"
| "pop_ok (Some waited) c = (waited \<or> \<not> about_to_pop c)"

definition pop_inv :: "'a system \<Rightarrow> tid \<Rightarrow> bool" where
  "pop_inv s t = pop_ok (follow pop_protocol False (events_of t (history s))) (pcs s t)"

text \<open>
  The invariant behind scoped acquisition: the events of a thread follow the protocol, and
  the protocol is in the state the thread's next statement stands for.
\<close>

definition scope_inv :: "'a system \<Rightarrow> tid \<Rightarrow> bool" where
  "scope_inv s t =
     (follow scope_protocol No_handle (events_of t (history s)) = Some (scope_phase_of (pcs s t)))"

text \<open>
  The invariant behind the protocol of \<^verbatim>\<open>append\<close>, for a thread that is not a worker.
\<close>

definition append_inv :: "'a system \<Rightarrow> tid \<Rightarrow> bool" where
  "append_inv s t =
     (\<not> in_run (pcs s t) \<and>
      follow append_protocol Not_appending (events_of t (history s)) =
        Some (append_phase_of (pcs s t)))"

text \<open>
  The account of a thread: it has posted the semaphore once for every call of \<^verbatim>\<open>append\<close>
  of its own that has returned true, and once more when it is between the post and the
  return; and the same for its pushes.
\<close>

definition account_inv :: "'a system \<Rightarrow> tid \<Rightarrow> bool" where
  "account_inv s t =
     (posted (own t (history s)) =
        count_list (events_of t (history s)) (EvReturn True) + posting (pcs s t) \<and>
      length (pushed (own t (history s))) =
        count_list (events_of t (history s)) (EvReturn True) + pushing (pcs s t))"

text \<open>
  Actions that come from no call of \<^verbatim>\<open>append\<close> and from no spurious wake, and states in
  which no thread is inside \<^verbatim>\<open>append\<close>.
\<close>

fun no_wake :: "'a action \<Rightarrow> bool" where
  "no_wake (Step t) = True"
| "no_wake (Throw t) = True"
| "no_wake Destroy = True"
| "no_wake (Call t r) = False"
| "no_wake (Spurious t) = False"

definition no_appender :: "'a system \<Rightarrow> bool" where
  "no_appender s = (\<forall>u. in_run (pcs s u) \<or> pcs s u = Idle)"

section \<open>The connection of \<^verbatim>\<open>http/http_conn.h\<close>\<close>

text \<open>
  Of the connection only the class declaration is among the sources: its constants, its
  enumerations and its members are embedded as declared, and so is \<^verbatim>\<open>get_line\<close>, which
  the declaration defines.  The other member functions are defined in a file that is not
  among the sources; each is modelled from the spec, and says so.
\<close>

definition READ_BUFFER_SIZE :: nat where
  "READ_BUFFER_SIZE = 2048"

definition WRITE_BUFFER_SIZE :: nat where
  "WRITE_BUFFER_SIZE = 1024"

text \<open>
  A member declared \<^verbatim>\<open>int\<close> holds a 32-bit value in two's complement: a number outside the
  range wraps around when it is stored, and so does a sum.
\<close>

definition INT_MAX :: int where
  "INT_MAX = 2147483647"

definition int32 :: "int \<Rightarrow> int" where
  "int32 i = (i + 2147483648) mod 4294967296 - 2147483648"

datatype METHOD = GET | POST | HEAD | PUT | DELETE | TRACE | OPTIONS | CONNECT | PATH

datatype CHECK_STATE = CHECK_STATE_REQUESTLINE | CHECK_STATE_HEADER | CHECK_STATE_CONTENT

datatype HTTP_CODE =
    NO_REQUEST
  | GET_REQUEST
  | BAD_REQUEST
  | NO_RESOURCE
  | FORBIDDEN_REQUEST
  | FILE_REQUEST
  | INTERNAL_ERROR
  | CLOSED_CONNECTION

datatype LINE_STATUS = LINE_OK | LINE_BAD | LINE_OPEN

text \<open>
  The members the parser and the response builder use.  A buffer is the list of the bytes
  written to the array so far, so that \<^verbatim>\<open>m_read_idx\<close> and \<^verbatim>\<open>m_write_idx\<close> are the lengths
  of these lists; \<^verbatim>\<open>m_checked_idx\<close> and \<^verbatim>\<open>m_start_line\<close> are positions in the receive
  buffer; \<^verbatim>\<open>m_content_length\<close> is an \<^verbatim>\<open>int\<close>; a \<^verbatim>\<open>char*\<close> member is the text it points
  to.
\<close>

record http_conn =
  m_read_buf :: string
  m_checked_idx :: nat
  m_start_line :: nat
  m_write_buf :: string
  m_check_state :: CHECK_STATE
  m_method :: METHOD
  m_url :: string
  m_version :: string
  m_host :: string
  m_content_length :: int
  m_linger :: bool
  cgi :: int
  m_string :: string

definition m_read_idx :: "http_conn \<Rightarrow> nat" where
  "m_read_idx c = length (m_read_buf c)"

definition m_write_idx :: "http_conn \<Rightarrow> nat" where
  "m_write_idx c = length (m_write_buf c)"

text \<open>
  What the spec leaves to configuration and to the file system: the default landing
  resource an empty path maps to, and the classification the resolution of a complete
  request ends in, which depends on the method, the path and the body.
\<close>

record config =
  default_landing :: string
  resolve :: "METHOD \<Rightarrow> string \<Rightarrow> string \<Rightarrow> HTTP_CODE"

subsection \<open>The request state machine\<close>

definition CR :: char where
  "CR = CHR 0x0D"

definition LF :: char where
  "LF = CHR 0x0A"

definition NUL :: char where
  "NUL = CHR 0x00"

text \<open>
  Modelled from the spec: \<^verbatim>\<open>http_conn::init()\<close>, which is not among the sources.  The parse
  state is reset to the request line and the indices of the buffers to 0.
\<close>

definition init :: http_conn where
  "init =
     \<lparr>m_read_buf = [], m_checked_idx = 0, m_start_line = 0, m_write_buf = [],
      m_check_state = CHECK_STATE_REQUESTLINE, m_method = GET, m_url = [], m_version = [],
      m_host = [], m_content_length = 0, m_linger = False, cgi = 0, m_string = []\<rparr>"

text \<open>
  Modelled from the spec: \<^verbatim>\<open>http_conn::read_once()\<close>, which is not among the sources.  The
  bytes the socket delivers are stored after the bytes already in the receive buffer, as
  far as the fixed capacity goes.
\<close>

definition read_once :: "http_conn \<Rightarrow> string \<Rightarrow> http_conn" where
  "read_once c bytes =
     c\<lparr>m_read_buf := m_read_buf c @ take (READ_BUFFER_SIZE - m_read_idx c) bytes\<rparr>"

text \<open>
  Modelled from the spec: \<^verbatim>\<open>http_conn::parse_line()\<close>, which is not among the sources.  The
  scan goes forward from \<^verbatim>\<open>m_checked_idx\<close> looking for \<open>CR LF\<close>: \<open>LINE_OK\<close> with the index
  moved past the terminator; \<open>LINE_OPEN\<close> when the buffer is exhausted before a
  terminator (also when its last byte is the \<open>CR\<close>); \<open>LINE_BAD\<close> at a \<open>CR\<close> that no
  \<open>LF\<close> follows and at an \<open>LF\<close> that no \<open>CR\<close> precedes.  \<open>scan\<close> gives the status and the
  number of bytes the index moves.  A complete line is ended in place: its \<open>CR\<close> and its
  \<open>LF\<close>, the two bytes before the new \<^verbatim>\<open>m_checked_idx\<close>, are overwritten with \<open>NUL\<close>, so
  that the C string \<^verbatim>\<open>get_line()\<close> returns is the line.
\<close>

fun scan :: "string \<Rightarrow> LINE_STATUS \<times> nat" where
  "scan [] = (LINE_OPEN, 0)"
| "scan (ch # rest) =
     (if ch = CR then
        (case rest of
           [] \<Rightarrow> (LINE_OPEN, 0)
         | nx # others \<Rightarrow> if nx = LF then (LINE_OK, 2) else (LINE_BAD, 0))
      else if ch = LF then (LINE_BAD, 0)
      else (case scan rest of (st, k) \<Rightarrow> (st, Suc k)))"

definition end_line :: "string \<Rightarrow> nat \<Rightarrow> string" where
  "end_line buf i = (buf[i - 2 := NUL])[i - 1 := NUL]"

definition parse_line :: "http_conn \<Rightarrow> LINE_STATUS \<times> http_conn" where
  "parse_line c =
     (case scan (drop (m_checked_idx c) (m_read_buf c)) of
        (st, k) \<Rightarrow>
          (st, if st = LINE_OK
               then c\<lparr>m_read_buf := end_line (m_read_buf c) (m_checked_idx c + k),
                      m_checked_idx := m_checked_idx c + k\<rparr>
               else c\<lparr>m_checked_idx := m_checked_idx c + k\<rparr>))"

text \<open>
  \<^verbatim>\<open>get_line()\<close>, line 111 of the header: \<^verbatim>\<open>return m_read_buf + m_start_line;\<close>.  What the
  callers read through the pointer is a C string: the bytes from \<^verbatim>\<open>m_start_line\<close> up to
  the first \<open>NUL\<close>.  (Where the parser calls it, \<^verbatim>\<open>parse_line\<close> has put a \<open>NUL\<close> between
  \<^verbatim>\<open>m_start_line\<close> and \<^verbatim>\<open>m_checked_idx\<close>: lemma \<open>parse_line_nul\<close> below.)
\<close>

definition get_line :: "http_conn \<Rightarrow> string" where
  "get_line c = takeWhile (\<lambda>ch. ch \<noteq> NUL) (drop (m_start_line c) (m_read_buf c))"

text \<open>The enumerated verbs, matched case-sensitively.\<close>

definition method_of :: "string \<Rightarrow> METHOD option" where
  "method_of tok =
     (if tok = ''GET'' then Some GET
      else if tok = ''POST'' then Some POST
      else if tok = ''HEAD'' then Some HEAD
      else if tok = ''PUT'' then Some PUT
      else if tok = ''DELETE'' then Some DELETE
      else if tok = ''TRACE'' then Some TRACE
      else if tok = ''OPTIONS'' then Some OPTIONS
      else if tok = ''CONNECT'' then Some CONNECT
      else if tok = ''PATH'' then Some PATH
      else None)"

text \<open>A text up to its first space, and what follows that space (if there is one).\<close>

definition token :: "string \<Rightarrow> string" where
  "token text = takeWhile (\<lambda>ch. ch \<noteq> CHR '' '') text"

definition after_token :: "string \<Rightarrow> string option" where
  "after_token text =
     (case dropWhile (\<lambda>ch. ch \<noteq> CHR '' '') text of [] \<Rightarrow> None | sp # rest \<Rightarrow> Some rest)"

text \<open>
  A URL that begins with \<^verbatim>\<open>http://\<close> loses scheme and host and keeps the path; an empty
  path is the default landing resource.
\<close>

definition path_of :: "config \<Rightarrow> string \<Rightarrow> string" where
  "path_of cfg url =
     (let path = (if take 7 url = ''http://''
                  then dropWhile (\<lambda>ch. ch \<noteq> CHR ''/'') (drop 7 url) else url)
      in if path = [] then default_landing cfg else path)"

text \<open>
  Modelled from the spec: \<^verbatim>\<open>http_conn::parse_request_line\<close>, which is not among the
  sources.  The line is split on single spaces into method, URL and version; a method
  outside the enumerated verbs, and a line without URL or version, is \<open>BAD_REQUEST\<close>; on
  success the state becomes \<open>CHECK_STATE_HEADER\<close>.  The flag \<^verbatim>\<open>cgi\<close> marks a POST.
\<close>

definition parse_request_line :: "config \<Rightarrow> string \<Rightarrow> http_conn \<Rightarrow> HTTP_CODE \<times> http_conn" where
  "parse_request_line cfg text c =
     (case after_token text of
        None \<Rightarrow> (BAD_REQUEST, c)
      | Some rest \<Rightarrow>
          (case method_of (token text) of
             None \<Rightarrow> (BAD_REQUEST, c)
           | Some m \<Rightarrow>
               (case after_token rest of
                  None \<Rightarrow> (BAD_REQUEST, c)
                | Some version \<Rightarrow>
                    if version = [] then (BAD_REQUEST, c)
                    else (NO_REQUEST,
                          c\<lparr>m_method := m, cgi := (if m = POST then 1 else 0),
                            m_url := path_of cfg (token rest), m_version := version,
                            m_check_state := CHECK_STATE_HEADER\<rparr>))))"

text \<open>The value of a header: what follows the name and the spaces after it.\<close>

definition header_value :: "string \<Rightarrow> string \<Rightarrow> string option" where
  "header_value name text =
     (if take (length name) text = name
      then Some (dropWhile (\<lambda>ch. ch = CHR '' '') (drop (length name) text))
      else None)"

definition lower :: "char \<Rightarrow> char" where
  "lower ch =
     (if (65::nat) \<le> of_char ch \<and> of_char ch \<le> (90::nat)
      then char_of (of_char ch + (32::nat)) else ch)"

definition is_digit :: "char \<Rightarrow> bool" where
  "is_digit ch = ((48::nat) \<le> of_char ch \<and> of_char ch \<le> (57::nat))"

text \<open>The non-negative integer a text begins with, in decimal.\<close>

definition number_of :: "string \<Rightarrow> nat" where
  "number_of text =
     foldl (\<lambda>n ch. 10 * n + (of_char ch - 48)) 0 (takeWhile is_digit text)"

text \<open>
  Modelled from the spec: \<^verbatim>\<open>http_conn::parse_headers\<close>, which is not among the sources.
  An empty line ends the header block: a POST with a positive \<^verbatim>\<open>Content-Length\<close> goes on to
  \<open>CHECK_STATE_CONTENT\<close>, any other request is complete (\<open>GET_REQUEST\<close>).  Of the headers,
  \<^verbatim>\<open>Connection\<close> with the value \<^verbatim>\<open>keep-alive\<close> in any case sets the keep-alive flag,
  \<^verbatim>\<open>Content-Length\<close> gives the length of the body, stored in the \<^verbatim>\<open>int\<close> member,
  \<^verbatim>\<open>Host\<close> is stored; anything else is ignored.
\<close>

definition parse_headers :: "string \<Rightarrow> http_conn \<Rightarrow> HTTP_CODE \<times> http_conn" where
  "parse_headers text c =
     (if text = [] then
        (if m_method c = POST \<and> 0 < m_content_length c
         then (NO_REQUEST, c\<lparr>m_check_state := CHECK_STATE_CONTENT\<rparr>)
         else (GET_REQUEST, c))
      else
        (case header_value ''Connection:'' text of
           Some v \<Rightarrow>
             (NO_REQUEST, if map lower v = ''keep-alive'' then c\<lparr>m_linger := True\<rparr> else c)
         | None \<Rightarrow>
             (case header_value ''Content-Length:'' text of
                Some v \<Rightarrow> (NO_REQUEST, c\<lparr>m_content_length := int32 (int (number_of v))\<rparr>)
              | None \<Rightarrow>
                  (case header_value ''Host:'' text of
                     Some v \<Rightarrow> (NO_REQUEST, c\<lparr>m_host := v\<rparr>)
                   | None \<Rightarrow> (NO_REQUEST, c)))))"

text \<open>
  Modelled from the spec: \<^verbatim>\<open>http_conn::parse_content\<close>, which is not among the sources.  It
  succeeds once the receive buffer holds at least \<^verbatim>\<open>m_start_line + m_content_length\<close>
  bytes, a sum of two \<^verbatim>\<open>int\<close> members, and then records the body, the span of
  \<^verbatim>\<open>m_content_length\<close> bytes from \<^verbatim>\<open>m_start_line\<close>; until then it reports that more data is
  needed.
\<close>

definition parse_content :: "http_conn \<Rightarrow> HTTP_CODE \<times> http_conn" where
  "parse_content c =
     (if int32 (int (m_start_line c) + m_content_length c) \<le> int (m_read_idx c)
      then (GET_REQUEST,
            c\<lparr>m_string := take (nat (m_content_length c)) (drop (m_start_line c) (m_read_buf c))\<rparr>)
      else (NO_REQUEST, c))"

text \<open>
  Modelled from the spec: \<^verbatim>\<open>http_conn::do_request\<close>, which is not among the sources: the
  classification the resolution of the parsed request ends in.
\<close>

definition do_request :: "config \<Rightarrow> http_conn \<Rightarrow> HTTP_CODE" where
  "do_request cfg c = resolve cfg (m_method c) (m_url c) (m_string c)"

text \<open>
  Modelled from the spec: \<^verbatim>\<open>http_conn::process_read\<close>, which is not among the sources.  One
  turn of its loop: in \<open>CHECK_STATE_CONTENT\<close> the sufficiency of the buffer is checked,
  otherwise a line is extracted and handed to the handler of the state.  The turn either
  ends the loop with a classification (\<open>NO_REQUEST\<close> on \<open>LINE_OPEN\<close> and on a body still
  incomplete, \<open>BAD_REQUEST\<close> on \<open>LINE_BAD\<close> and on a handler's failure, the resolution of a
  complete request) or lets it go on.
\<close>

definition handle_line :: "config \<Rightarrow> CHECK_STATE \<Rightarrow> http_conn \<Rightarrow> HTTP_CODE option \<times> http_conn" where
  "handle_line cfg state c' =
     (let text = get_line c'; d = c'\<lparr>m_start_line := m_checked_idx c'\<rparr> in
      if state = CHECK_STATE_REQUESTLINE then
        (case parse_request_line cfg text d of
           (ret, e) \<Rightarrow> if ret = BAD_REQUEST then (Some BAD_REQUEST, e) else (None, e))
      else
        (case parse_headers text d of
           (ret, e) \<Rightarrow> if ret = BAD_REQUEST then (Some BAD_REQUEST, e)
                        else if ret = GET_REQUEST then (Some (do_request cfg e), e)
                        else (None, e)))"

definition process_turn :: "config \<Rightarrow> http_conn \<Rightarrow> HTTP_CODE option \<times> http_conn" where
  "process_turn cfg c =
     (if m_check_state c = CHECK_STATE_CONTENT then
        (case parse_content c of
           (ret, c') \<Rightarrow> if ret = GET_REQUEST then (Some (do_request cfg c'), c')
                         else (Some NO_REQUEST, c'))
      else
        (case parse_line c of
           (LINE_OPEN, c') \<Rightarrow> (Some NO_REQUEST, c')
         | (LINE_BAD, c') \<Rightarrow> (Some BAD_REQUEST, c')
         | (LINE_OK, c') \<Rightarrow> handle_line cfg (m_check_state c) c'))"

text \<open>The loop ends: a turn that lets it go on has moved the index forward.\<close>

lemma scan_bound: "scan xs = (st, k) \<Longrightarrow> k \<le> length xs"
proof (induction xs arbitrary: st k)
  case Nil
  then show ?case by simp
next
  case (Cons ch rest)
  then show ?case
    by (cases rest; cases "scan rest") (auto split: if_splits)
qed

lemma scan_ok: "scan xs = (LINE_OK, k) \<Longrightarrow> 2 \<le> k"
proof (induction xs arbitrary: k)
  case Nil
  then show ?case by simp
next
  case (Cons ch rest)
  then show ?case
    by (cases rest; cases "scan rest") (auto split: if_splits)
qed

lemma length_end_line [simp]: "length (end_line buf i) = length buf"
  by (simp add: end_line_def)

lemma parse_line_ok:
  assumes "parse_line c = (LINE_OK, c')"
  shows "c' = c\<lparr>m_read_buf := end_line (m_read_buf c) (m_checked_idx c'),
                 m_checked_idx := m_checked_idx c'\<rparr>"
    and "m_checked_idx c + 2 \<le> m_checked_idx c'"
    and "m_checked_idx c' \<le> m_read_idx c"
    and "m_read_idx c' = m_read_idx c"
proof -
  obtain k where k: "scan (drop (m_checked_idx c) (m_read_buf c)) = (LINE_OK, k)"
    and c': "c' = c\<lparr>m_read_buf := end_line (m_read_buf c) (m_checked_idx c + k),
                       m_checked_idx := m_checked_idx c + k\<rparr>"
    using assms by (auto simp: parse_line_def split: prod.splits if_splits)
  from c' show "c' = c\<lparr>m_read_buf := end_line (m_read_buf c) (m_checked_idx c'),
                 m_checked_idx := m_checked_idx c'\<rparr>" by simp
  from c' show "m_read_idx c' = m_read_idx c" by (simp add: m_read_idx_def)
  from scan_ok [OF k] c' show "m_checked_idx c + 2 \<le> m_checked_idx c'" by simp
  from scan_bound [OF k] scan_ok [OF k] c' show "m_checked_idx c' \<le> m_read_idx c"
    by (simp add: m_read_idx_def)
qed

lemma parse_request_line_frame:
  assumes "parse_request_line cfg text d = (ret, e)"
  shows "m_read_buf e = m_read_buf d" and "m_checked_idx e = m_checked_idx d"
    and "m_start_line e = m_start_line d"
  using assms
  by (auto simp: parse_request_line_def split: option.splits if_splits)

lemma parse_headers_frame:
  assumes "parse_headers text d = (ret, e)"
  shows "m_read_buf e = m_read_buf d" and "m_checked_idx e = m_checked_idx d"
    and "m_start_line e = m_start_line d"
  using assms
  by (auto simp: parse_headers_def split: option.splits if_splits)

lemma handle_line_frame:
  assumes "handle_line cfg state l = (x, c')"
  shows "m_read_buf c' = m_read_buf l" and "m_checked_idx c' = m_checked_idx l"
    and "m_start_line c' = m_checked_idx l"
proof -
  let ?d = "l\<lparr>m_start_line := m_checked_idx l\<rparr>"
  have "m_read_buf c' = m_read_buf ?d \<and> m_checked_idx c' = m_checked_idx ?d \<and>
        m_start_line c' = m_start_line ?d"
  proof (cases "state = CHECK_STATE_REQUESTLINE")
    case True
    obtain ret e where r: "parse_request_line cfg (get_line l) ?d = (ret, e)"
      by (cases "parse_request_line cfg (get_line l) ?d")
    with assms True have "c' = e"
      by (simp add: handle_line_def Let_def split: if_splits)
    with parse_request_line_frame [OF r] show ?thesis by simp
  next
    case False
    obtain ret e where r: "parse_headers (get_line l) ?d = (ret, e)"
      by (cases "parse_headers (get_line l) ?d")
    with assms False have "c' = e"
      by (simp add: handle_line_def Let_def split: if_splits)
    with parse_headers_frame [OF r] show ?thesis by simp
  qed
  then show "m_read_buf c' = m_read_buf l" and "m_checked_idx c' = m_checked_idx l"
    and "m_start_line c' = m_checked_idx l"
    by simp_all
qed

lemma process_turn_goes_on:
  assumes "process_turn cfg c = (None, c')"
  shows "m_read_idx c' = m_read_idx c" and "m_checked_idx c < m_checked_idx c'"
    and "m_checked_idx c' \<le> m_read_idx c"
proof -
  from assms have ns: "m_check_state c \<noteq> CHECK_STATE_CONTENT"
    by (auto simp: process_turn_def split: prod.splits if_splits)
  obtain st l where pl: "parse_line c = (st, l)" by (cases "parse_line c")
  with assms ns have st: "st = LINE_OK"
    by (cases st) (simp_all add: process_turn_def)
  note ok = parse_line_ok [OF pl [unfolded st]]
  from assms ns pl st have "handle_line cfg (m_check_state c) l = (None, c')"
    by (simp add: process_turn_def)
  note fr = handle_line_frame [OF this]
  from fr ok show "m_read_idx c' = m_read_idx c" and "m_checked_idx c < m_checked_idx c'"
    and "m_checked_idx c' \<le> m_read_idx c"
    by (simp_all add: m_read_idx_def)
qed

text \<open>
  Modelled from the spec: the loop of \<^verbatim>\<open>http_conn::process_read\<close>, which goes on while
  complete lines remain.
\<close>

function process_read :: "config \<Rightarrow> http_conn \<Rightarrow> HTTP_CODE \<times> http_conn" where
  "process_read cfg c =
     (case process_turn cfg c of
        (Some ret, c') \<Rightarrow> (ret, c')
      | (None, c') \<Rightarrow> process_read cfg c')"
  by pat_completeness auto
termination
proof (relation "measure (\<lambda>(cfg, c). m_read_idx c - m_checked_idx c)")
  show "wf (measure (\<lambda>(cfg, c). m_read_idx c - m_checked_idx c))" by simp
next
  fix cfg c x c' 
  assume "(x, c') = process_turn cfg c" and "x = None"
  then have t: "process_turn cfg c = (None, c')" by simp
  from process_turn_goes_on [OF t]
  show "((cfg, c'), (cfg, c)) \<in> measure (\<lambda>(cfg, c). m_read_idx c - m_checked_idx c)"
    by simp
qed

declare process_read.simps [simp del]

text \<open>
  The reactor's part: the bytes that arrive are read into the buffer and the parser runs.
  \<open>feed_each\<close> delivers a request one byte at a time and lists the classifications.
\<close>

definition feed :: "config \<Rightarrow> http_conn \<Rightarrow> string \<Rightarrow> HTTP_CODE \<times> http_conn" where
  "feed cfg c bytes = process_read cfg (read_once c bytes)"

fun feed_each :: "config \<Rightarrow> http_conn \<Rightarrow> string \<Rightarrow> HTTP_CODE list \<times> http_conn" where
  "feed_each cfg c [] = ([], c)"
| "feed_each cfg c (b # bs) =
     (case feed cfg c [b] of
        (ret, c') \<Rightarrow> (case feed_each cfg c' bs of (rets, c'') \<Rightarrow> (ret # rets, c'')))"

text \<open>
  The connection with further bytes in its receive buffer, and the property of a
  configuration that resolution ends in a classification other than \<open>NO_REQUEST\<close>, which
  stands for the need of more data.
\<close>

definition grown :: "http_conn \<Rightarrow> string \<Rightarrow> http_conn" where
  "grown c bytes = c\<lparr>m_read_buf := m_read_buf c @ bytes\<rparr>"

definition resolves :: "config \<Rightarrow> bool" where
  "resolves cfg = (\<forall>m u b. resolve cfg m u b \<noteq> NO_REQUEST)"

subsection \<open>Well-formed requests\<close>

text \<open>
  A request as it is on the wire: the request line, the header lines and an empty line,
  each ended by \<open>CR LF\<close>, and then the body.
\<close>

definition crlf :: string where
  "crlf = [CR, LF]"

definition request_line :: "string \<Rightarrow> string \<Rightarrow> string \<Rightarrow> string" where
  "request_line method url version = method @ CHR '' '' # url @ CHR '' '' # version"

definition header_block :: "string \<Rightarrow> string list \<Rightarrow> string" where
  "header_block line headers = line @ crlf @ concat (map (\<lambda>h. h @ crlf) headers) @ crlf"

text \<open>
  A text with no line terminator byte and no \<open>NUL\<close> byte in it, and a text with no space
  in it.
\<close>

definition clean :: "string \<Rightarrow> bool" where
  "clean text = (CR \<notin> set text \<and> LF \<notin> set text \<and> NUL \<notin> set text)"

definition no_space :: "string \<Rightarrow> bool" where
  "no_space text = (CHR '' '' \<notin> set text)"

text \<open>
  The \<^verbatim>\<open>Content-Length\<close> a list of headers declares: the number in the last header of that
  name, 0 when there is none.
\<close>

fun declared_length :: "nat \<Rightarrow> string list \<Rightarrow> nat" where
  "declared_length n [] = n"
| "declared_length n (h # hs) =
     declared_length
       (case header_value ''Connection:'' h of
          Some v \<Rightarrow> n
        | None \<Rightarrow> (case header_value ''Content-Length:'' h of Some v \<Rightarrow> number_of v | None \<Rightarrow> n))
       hs"

text \<open>
  The head of a well-formed request: an enumerated verb, a URL without space, a version,
  none of them with a line terminator byte or a \<open>NUL\<close> byte in it, and header lines that
  are not empty and have no such byte in them.
\<close>

definition well_formed :: "string \<Rightarrow> string \<Rightarrow> string \<Rightarrow> string list \<Rightarrow> bool" where
  "well_formed method url version headers =
     (method_of method \<noteq> None \<and> no_space url \<and> clean url \<and> version \<noteq> [] \<and> clean version \<and>
      list_all (\<lambda>h. h \<noteq> [] \<and> clean h) headers)"

text \<open>
  The length of the body a well-formed request has: what its headers declare when it is
  a POST, nothing otherwise.
\<close>

definition body_length :: "string \<Rightarrow> string list \<Rightarrow> nat" where
  "body_length method headers = (if method = ''POST'' then declared_length 0 headers else 0)"

text \<open>
  The connection once the parser has gone through header lines: each line is ended in
  the buffer, the indices are past them and each header has had its effect.
\<close>

fun run_headers :: "string list \<Rightarrow> http_conn \<Rightarrow> http_conn" where
  "run_headers [] c = c"
| "run_headers (h # hs) c =
     run_headers hs
       (snd (parse_headers h
          (c\<lparr>m_read_buf := end_line (m_read_buf c) (m_checked_idx c + length h + 2),
             m_checked_idx := m_checked_idx c + length h + 2,
             m_start_line := m_checked_idx c + length h + 2\<rparr>)))"

text \<open>The bytes of header lines once the parser has ended each line.\<close>

definition ended :: "string list \<Rightarrow> string" where
  "ended hs = concat (map (\<lambda>h. h @ [NUL, NUL]) hs)"

text \<open>
  How far into the buffer the parser has got: to the end of the body in
  \<open>CHECK_STATE_CONTENT\<close>, to \<^verbatim>\<open>m_checked_idx\<close> otherwise.
\<close>

definition consumed :: "http_conn \<Rightarrow> nat" where
  "consumed c =
     (if m_check_state c = CHECK_STATE_CONTENT
      then nat (int32 (int (m_start_line c) + m_content_length c))
      else m_checked_idx c)"

subsection \<open>An example configuration\<close>

definition example_config :: config where
  "example_config =
     \<lparr>default_landing = ''/index.html'',
      resolve = (\<lambda>m u b. if u = ''/nope'' then NO_RESOURCE else FILE_REQUEST)\<rparr>"

subsection \<open>The response builder\<close>

text \<open>
  Modelled from the spec: \<^verbatim>\<open>http_conn::add_response\<close>, which is not among the sources.  The
  formatting is outside the model: the argument is the formatted text.  When the text
  would take the send buffer past \<open>WRITE_BUFFER_SIZE\<close> nothing is written and the result
  is false; otherwise the text is written after the bytes already there.
\<close>

definition add_response :: "http_conn \<Rightarrow> string \<Rightarrow> bool \<times> http_conn" where
  "add_response c text =
     (if WRITE_BUFFER_SIZE < m_write_idx c + length text then (False, c)
      else (True, c\<lparr>m_write_buf := m_write_buf c @ text\<rparr>))"

text \<open>
  Modelled from the spec: the use the response builder makes of the primitive
  (\<^verbatim>\<open>add_status_line\<close>, \<^verbatim>\<open>add_headers\<close>, \<^verbatim>\<open>add_content\<close> and \<^verbatim>\<open>process_write\<close>, none among
  the sources): the parts of a response are appended in order, and the first append that
  fails ends the response with false.
\<close>

fun add_all :: "http_conn \<Rightarrow> string list \<Rightarrow> bool \<times> http_conn" where
  "add_all c [] = (True, c)"
| "add_all c (text # texts) =
     (case add_response c text of
        (False, c') \<Rightarrow> (False, c')
      | (True, c') \<Rightarrow> add_all c' texts)"

section \<open>Properties of the thread pool\<close>

subsection \<open>The invariant of the program\<close>

lemma pushed_append: "pushed (h @ k) = pushed h @ pushed k"
  by (induction h rule: pushed.induct) simp_all

lemma popped_append: "popped (h @ k) = popped h @ popped k"
  by (induction h rule: popped.induct) simp_all

lemma queue_ok_free: "\<not> holds_lock c \<Longrightarrow> c \<noteq> Undefined_behaviour \<Longrightarrow> queue_ok p c"
  by (cases c) simp_all

lemma queue_ok_locker [simp]: "queue_ok (p\<lparr>m_queuelocker := x\<rparr>) c = queue_ok p c"
  by (cases c) simp_all

lemma queue_ok_stat [simp]: "queue_ok (p\<lparr>m_queuestat := n\<rparr>) c = queue_ok p c"
  by (cases c) simp_all

lemma thread_inv_self:
  assumes "thread_inv u (pool s) (pcs s u)"
  shows "thread_inv u (pool (fire s (Step u))) (pcs (fire s (Step u)) u)"
  using assms by (cases "pcs s u") (simp_all add: thread_inv_def split: list.splits)

lemma thread_inv_other:
  assumes u: "thread_inv u (pool s) (pcs s u)" and t: "thread_inv t (pool s) (pcs s t)"
    and ne: "t \<noteq> u"
  shows "thread_inv t (pool (fire s (Step u))) (pcs (fire s (Step u)) t)"
proof (cases "m_queuelocker (pool s) = Some u")
  case True
  then have free: "\<not> holds_lock (pcs s t)" and q: "queue_ok (pool s) (pcs s t)"
    using t ne by (simp_all add: thread_inv_def)
  then have nub: "pcs s t \<noteq> Undefined_behaviour" by auto
  have all: "queue_ok p' (pcs s t)" for p' :: "'a threadpool"
    using free nub by (rule queue_ok_free)
  show ?thesis using True ne free all u
    by (cases "pcs s u") (simp_all add: thread_inv_def split: list.splits)
next
  case False
  then have nh: "\<not> holds_lock (pcs s u)" using u by (simp add: thread_inv_def)
  show ?thesis using nh t ne
    by (cases "pcs s u") (simp_all add: thread_inv_def)
qed

lemma thread_inv_dtor [simp]: "thread_inv t (threadpool_dtor p) c = thread_inv t p c"
  by (cases c) (simp_all add: thread_inv_def threadpool_dtor_def)

lemma thread_inv_step:
  assumes "\<forall>t. thread_inv t (pool s) (pcs s t)"
  shows "thread_inv t (pool (fire s (Step u))) (pcs (fire s (Step u)) t)"
proof (cases "t = u")
  case True
  from assms have "thread_inv u (pool s) (pcs s u)" by (rule spec)
  then show ?thesis unfolding True by (rule thread_inv_self)
next
  case False
  from assms have "thread_inv u (pool s) (pcs s u)" by (rule spec)
  moreover from assms have "thread_inv t (pool s) (pcs s t)" by (rule spec)
  ultimately show ?thesis using False by (rule thread_inv_other)
qed

lemma thread_inv_call:
  assumes "\<forall>t. thread_inv t (pool s) (pcs s t)"
  shows "thread_inv t (pool (fire s (Call u r))) (pcs (fire s (Call u r)) t)"
proof (cases "pcs s u = Idle \<and> t = u")
  case True
  from assms have "thread_inv u (pool s) (pcs s u)" by (rule spec)
  with True have "thread_inv t (pool s) (A_lock r)" by (simp add: thread_inv_def)
  with True show ?thesis by simp
next
  case False
  from assms have "thread_inv t (pool s) (pcs s t)" by (rule spec)
  with False show ?thesis by (cases "pcs s u = Idle") simp_all
qed

lemma thread_inv_spurious:
  assumes "\<forall>t. thread_inv t (pool s) (pcs s t)"
  shows "thread_inv t (pool (fire s (Spurious u))) (pcs (fire s (Spurious u)) t)"
proof (cases "pcs s u = R_wait \<and> t = u")
  case True
  from assms have "thread_inv u (pool s) (pcs s u)" by (rule spec)
  with True have "thread_inv t (pool s) R_lock" by (simp add: thread_inv_def)
  with True show ?thesis by simp
next
  case False
  from assms have "thread_inv t (pool s) (pcs s t)" by (rule spec)
  with False show ?thesis by (cases "pcs s u = R_wait") simp_all
qed

lemma throws_Some: "throws c = Some (c', es) \<Longrightarrow> \<exists>r. c = R_process r \<and> c' = R_terminate r \<and> es = [EvProcess r, EvThrow r]"
  by (cases c) simp_all

lemma fire_throw_pool [simp]: "pool (fire s (Throw u)) = pool s"
  by (simp split: option.splits)

lemma fire_throw_at:
  "pcs s u = R_process r \<Longrightarrow>
   fire s (Throw u) =
     s\<lparr>pcs := (pcs s)(u := R_terminate r),
       history := history s @ [(u, EvProcess r), (u, EvThrow r)]\<rparr>"
  by simp

lemma fire_throw_idle: "throws (pcs s u) = None \<Longrightarrow> fire s (Throw u) = s"
  by simp

lemma throws_cases:
  obtains (at) r where "c = R_process r" | (idle) "throws c = None"
  by (cases c) simp_all

lemma thread_inv_throw:
  assumes "\<forall>t. thread_inv t (pool s) (pcs s t)"
  shows "thread_inv t (pool (fire s (Throw u))) (pcs (fire s (Throw u)) t)"
proof (cases "pcs s u" rule: throws_cases)
  case (at r)
  from assms have "thread_inv u (pool s) (pcs s u)" by (rule spec)
  with at have "thread_inv u (pool s) (R_terminate r)" by (simp add: thread_inv_def)
  moreover from assms have "thread_inv t (pool s) (pcs s t)" by (rule spec)
  ultimately show ?thesis unfolding fire_throw_at [OF at] by simp
next
  case idle
  from assms have "thread_inv t (pool s) (pcs s t)" by (rule spec)
  then show ?thesis unfolding fire_throw_idle [OF idle] .
qed

lemma thread_inv_fire:
  assumes "\<forall>t. thread_inv t (pool s) (pcs s t)"
  shows "thread_inv t (pool (fire s a)) (pcs (fire s a) t)"
proof (cases a)
  case (Call u r)
  show ?thesis unfolding Call using assms by (rule thread_inv_call)
next
  case (Step u)
  show ?thesis unfolding Step using assms by (rule thread_inv_step)
next
  case (Spurious u)
  show ?thesis unfolding Spurious using assms by (rule thread_inv_spurious)
next
  case (Throw u)
  show ?thesis unfolding Throw using assms by (rule thread_inv_throw)
next
  case Destroy
  from assms have "thread_inv t (pool s) (pcs s t)" by (rule spec)
  then show ?thesis unfolding Destroy by simp
qed

lemma fifo_step:
  assumes u: "thread_inv u (pool s) (pcs s u)"
    and f: "popped (history s) @ m_workqueue (pool s) = pushed (history s)"
  shows "popped (history (fire s (Step u))) @ m_workqueue (pool (fire s (Step u))) =
         pushed (history (fire s (Step u)))"
proof (cases "pcs s u")
  case (A_push r)
  from f have "popped (history s) @ m_workqueue (pool s) @ [r] = pushed (history s) @ [r]"
    by simp
  then show ?thesis by (simp add: A_push pushed_append popped_append)
next
  case (R_pop_front r)
  with u obtain q where q: "m_workqueue (pool s) = r # q"
    by (auto simp: thread_inv_def split: list.splits)
  with f show ?thesis by (simp add: R_pop_front pushed_append popped_append)
next
  case R_front
  with f show ?thesis by (cases "m_workqueue (pool s)") simp_all
qed (use f in \<open>simp_all add: pushed_append popped_append\<close>)

lemma fifo_fire:
  assumes u: "\<forall>t. thread_inv t (pool s) (pcs s t)"
    and f: "popped (history s) @ m_workqueue (pool s) = pushed (history s)"
  shows "popped (history (fire s a)) @ m_workqueue (pool (fire s a)) = pushed (history (fire s a))"
proof (cases a)
  case (Step u)
  from assms(1) have "thread_inv u (pool s) (pcs s u)" by (rule spec)
  then show ?thesis unfolding Step using f by (rule fifo_step)
next
  case Destroy
  show ?thesis using f unfolding Destroy by (simp add: threadpool_dtor_def)
next
  case (Call u r)
  show ?thesis using f unfolding Call by (simp add: pushed_append popped_append)
next
  case (Spurious u)
  show ?thesis using f unfolding Spurious by (simp add: pushed_append popped_append)
next
  case (Throw u)
  show ?thesis
  proof (cases "pcs s u" rule: throws_cases)
    case (at r)
    show ?thesis using f unfolding Throw fire_throw_at [OF at]
      by (simp add: pushed_append popped_append)
  next
    case idle
    show ?thesis using f unfolding Throw fire_throw_idle [OF idle] .
  qed
qed

lemma sys_inv_fire:
  assumes "sys_inv s"
  shows "sys_inv (fire s a)"
proof -
  from assms have t: "\<forall>t. thread_inv t (pool s) (pcs s t)"
    and f: "popped (history s) @ m_workqueue (pool s) = pushed (history s)"
    by (simp_all add: sys_inv_def)
  have "\<forall>t. thread_inv t (pool (fire s a)) (pcs (fire s a) t)"
    using thread_inv_fire [OF t] by blast
  moreover have "popped (history (fire s a)) @ m_workqueue (pool (fire s a)) = pushed (history (fire s a))"
    using t f by (rule fifo_fire)
  ultimately show ?thesis by (simp add: sys_inv_def)
qed

lemma sys_inv_exec: "sys_inv s \<Longrightarrow> sys_inv (exec s as)"
  by (induction as arbitrary: s) (simp_all add: sys_inv_fire)

lemma ctor_pool:
  assumes "threadpool_ctor connPool n m alloc_ok create_ok detach_ok = (ws, Inr p)"
  shows "p = (member_init connPool n m)\<lparr>m_threads := Some ws\<rparr>"
  using assms by (simp add: threadpool_ctor_def split: if_splits prod.splits bool.splits)

lemma sys_inv_init:
  assumes "threadpool_ctor connPool n m alloc_ok create_ok detach_ok = (ws, Inr p)"
  shows "sys_inv (init_system p ws)"
  unfolding ctor_pool [OF assms]
  by (simp add: sys_inv_def init_system_def thread_inv_def member_init_def)

lemma sys_inv_reachable:
  assumes "threadpool_ctor connPool n m alloc_ok create_ok detach_ok = (ws, Inr p)"
  shows "sys_inv (exec (init_system p ws) as)"
  using sys_inv_init [OF assms] by (rule sys_inv_exec)

lemma example_ctor:
  "threadpool_ctor 0 2 2 True (\<lambda>i. True) (\<lambda>i. True) = ([0, 1], Inr (example_pool 2 2 [0, 1]))"
  by (simp add: threadpool_ctor_def example_pool_def spawn_workers.simps)

lemmas example_defs =
  example_pool_def example_run_def init_system_def member_init_def queue_exceeds_def
  threadpool_dtor_def

subsection \<open>The bound of the queue\<close>

text \<open>
  Claim C1: when the queue holds exactly \<^verbatim>\<open>m_max_requests\<close> tasks, \<^verbatim>\<open>append\<close> returns false
  and enqueues nothing.  The code does otherwise.  A pool is constructed with one worker
  and \<^verbatim>\<open>max_requests = 1\<close>; thread 1 appends task 10, which fills the queue to its
  maximum of one task; thread 1 then appends task 20, and that call pushes the task, posts
  the semaphore and returns true: the queue holds two tasks, one more than the maximum
  the comments of the class give (line 28 and line 59).  The test of line 129 is
  \<^verbatim>\<open>size() > m_max_requests\<close>, which lets the call through at \<^verbatim>\<open>size() == m_max_requests\<close>.
\<close>

theorem append_at_capacity_is_accepted:
  "threadpool_ctor 0 1 1 True (\<lambda>i. True) (\<lambda>i. True) = ([0], Inr (example_pool 1 1 [0])) \<and>
   m_max_requests (example_pool 1 1 [0]) = 1 \<and>
   m_workqueue (pool (exec (init_system (example_pool 1 1 [0]) [0])
       (append_alone 1 (Some 10)))) = [Some 10] \<and>
   m_workqueue (pool (exec (init_system (example_pool 1 1 [0]) [0])
       (append_alone 1 (Some 10) @ append_alone 1 (Some 20)))) = [Some 10, Some 20] \<and>
   history (exec (init_system (example_pool 1 1 [0]) [0])
       (append_alone 1 (Some 10) @ append_alone 1 (Some 20))) =
     [(1, EvCall (Some 10)), (1, EvLock), (1, EvPush (Some 10)), (1, EvUnlock), (1, EvPost),
      (1, EvReturn True),
      (1, EvCall (Some 20)), (1, EvLock), (1, EvPush (Some 20)), (1, EvUnlock), (1, EvPost),
      (1, EvReturn True)]"
proof -
  have "threadpool_ctor 0 1 1 True (\<lambda>i. True) (\<lambda>i. True) = ([0], Inr (example_pool 1 1 [0]))"
    by (simp add: threadpool_ctor_def example_pool_def spawn_workers.simps)
  moreover have "m_max_requests (example_pool 1 1 [0]) = 1"
    by (simp add: example_defs)
  moreover have "m_workqueue (pool (exec (init_system (example_pool 1 1 [0]) [0])
       (append_alone 1 (Some 10)))) = [Some 10]"
    by (simp add: example_defs append_alone_def)
  moreover have "m_workqueue (pool (exec (init_system (example_pool 1 1 [0]) [0])
       (append_alone 1 (Some 10) @ append_alone 1 (Some 20)))) = [Some 10, Some 20]"
    by (simp add: example_defs append_alone_def)
  moreover have "history (exec (init_system (example_pool 1 1 [0]) [0])
       (append_alone 1 (Some 10) @ append_alone 1 (Some 20))) =
     [(1, EvCall (Some 10)), (1, EvLock), (1, EvPush (Some 10)), (1, EvUnlock), (1, EvPost),
      (1, EvReturn True),
      (1, EvCall (Some 20)), (1, EvLock), (1, EvPush (Some 20)), (1, EvUnlock), (1, EvPost),
      (1, EvReturn True)]"
    by (simp add: example_defs append_alone_def)
  ultimately show ?thesis by blast
qed

subsection \<open>The order of the queue\<close>

lemma queue_kept:
  assumes "\<not> holds_lock (pcs s u)"
  shows "m_workqueue (pool (fire s (Step u))) = m_workqueue (pool s)"
  using assms by (cases "pcs s u") simp_all

lemma queue_owned:
  assumes inv: "\<forall>u. thread_inv u (pool s) (pcs s u)"
    and t: "holds_lock (pcs s t)" and a: "actor a \<noteq> Some t"
  shows "m_workqueue (pool (fire s a)) = m_workqueue (pool s)"
proof (cases a)
  case (Step u)
  with a have ne: "u \<noteq> t" by simp
  from inv have "thread_inv t (pool s) (pcs s t)" by (rule spec)
  with t have "m_queuelocker (pool s) = Some t" by (simp add: thread_inv_def)
  moreover from inv have "thread_inv u (pool s) (pcs s u)" by (rule spec)
  ultimately have "\<not> holds_lock (pcs s u)" using ne by (simp add: thread_inv_def)
  then show ?thesis unfolding Step by (rule queue_kept)
next
  case (Throw u)
  show ?thesis unfolding Throw by (simp only: fire_throw_pool)
qed (simp_all add: threadpool_dtor_def)

lemma dequeue_head:
  assumes "pcs s t = R_empty" and "m_workqueue (pool s) = r # q"
  shows "exec s [Step t, Step t, Step t] =
           s\<lparr>pool := (pool s)\<lparr>m_workqueue := q\<rparr>, pcs := (pcs s)(t := R_unlock r),
             history := history s @ [(t, EvPop r)]\<rparr>"
  using assms by simp

lemma wake_dequeues_head:
  assumes "pcs s t = R_wait" and "0 < m_queuestat (pool s)" and "m_queuelocker (pool s) = None"
    and "m_workqueue (pool s) = r # q"
  shows "exec s [Step t, Step t, Step t, Step t, Step t] =
           s\<lparr>pool := (pool s)\<lparr>m_queuestat := m_queuestat (pool s) - 1, m_queuelocker := Some t,
                               m_workqueue := q\<rparr>,
             pcs := (pcs s)(t := R_unlock r),
             history := history s @ [(t, EvWait), (t, EvLock), (t, EvPop r)]\<rparr>"
  using assms by simp

text \<open>
  Claim C2: the work queue is strict FIFO.  In every state the program reaches from a
  constructed pool, whatever the interleaving of appending threads and workers (and
  whatever spurious wakes, exceptions and destructor calls happen), the tasks dequeued so
  far followed by the tasks still queued are the tasks enqueued, in the order \<^verbatim>\<open>append\<close>
  pushed them, so that the tasks dequeued are an initial segment of the tasks enqueued;
  the push of \<^verbatim>\<open>append\<close> adds its task at the tail; the task a worker is
  about to remove with \<^verbatim>\<open>pop_front()\<close>, the one it read with \<^verbatim>\<open>front()\<close> and will
  process, is the head of the queue; while a thread is between \<^verbatim>\<open>lock()\<close> and
  \<^verbatim>\<open>unlock()\<close> no action of another thread changes the queue; and a worker does dequeue:
  one that holds the lock and finds the queue not empty (line 174) has removed the head,
  and nothing else, three statements later, and one at the wait with the semaphore
  positive and the lock free has done so five statements later.
\<close>

theorem work_queue_fifo:
  assumes "threadpool_ctor connPool n m alloc_ok create_ok detach_ok = (ws, Inr p)"
    and "s = exec (init_system p ws) as"
  shows "popped (history s) @ m_workqueue (pool s) = pushed (history s) \<and>
         popped (history s) = take (length (popped (history s))) (pushed (history s)) \<and>
         (pcs s t = A_push r \<longrightarrow>
            m_workqueue (pool (fire s (Step t))) = m_workqueue (pool s) @ [r] \<and>
            pushed (history (fire s (Step t))) = pushed (history s) @ [r]) \<and>
         (pcs s t = R_pop_front r \<longrightarrow> (\<exists>q. m_workqueue (pool s) = r # q)) \<and>
         (holds_lock (pcs s t) \<and> actor a \<noteq> Some t \<longrightarrow>
            m_workqueue (pool (fire s a)) = m_workqueue (pool s)) \<and>
         (pcs s t = R_empty \<and> m_workqueue (pool s) = r # q \<longrightarrow>
            exec s [Step t, Step t, Step t] =
              s\<lparr>pool := (pool s)\<lparr>m_workqueue := q\<rparr>, pcs := (pcs s)(t := R_unlock r),
                history := history s @ [(t, EvPop r)]\<rparr>) \<and>
         (pcs s t = R_wait \<and> 0 < m_queuestat (pool s) \<and> m_queuelocker (pool s) = None \<and>
          m_workqueue (pool s) = r # q \<longrightarrow>
            exec s [Step t, Step t, Step t, Step t, Step t] =
              s\<lparr>pool := (pool s)\<lparr>m_queuestat := m_queuestat (pool s) - 1,
                                  m_queuelocker := Some t, m_workqueue := q\<rparr>,
                pcs := (pcs s)(t := R_unlock r),
                history := history s @ [(t, EvWait), (t, EvLock), (t, EvPop r)]\<rparr>)"
proof -
  have inv: "sys_inv s"
    unfolding assms(2) using assms(1) by (rule sys_inv_reachable)
  then have ti: "\<forall>u. thread_inv u (pool s) (pcs s u)" by (simp add: sys_inv_def)
  from inv have 1: "popped (history s) @ m_workqueue (pool s) = pushed (history s)"
    by (simp add: sys_inv_def)
  have 2: "pcs s t = A_push r \<longrightarrow>
            m_workqueue (pool (fire s (Step t))) = m_workqueue (pool s) @ [r] \<and>
            pushed (history (fire s (Step t))) = pushed (history s) @ [r]"
    by (simp add: pushed_append)
  from ti have "thread_inv t (pool s) (pcs s t)" by (rule spec)
  then have 3: "pcs s t = R_pop_front r \<longrightarrow> (\<exists>q. m_workqueue (pool s) = r # q)"
    by (auto simp: thread_inv_def split: list.splits)
  have 4: "holds_lock (pcs s t) \<and> actor a \<noteq> Some t \<longrightarrow>
            m_workqueue (pool (fire s a)) = m_workqueue (pool s)"
    using queue_owned [OF ti, of t a] by blast
  have 5: "pcs s t = R_empty \<and> m_workqueue (pool s) = r # q \<longrightarrow>
            exec s [Step t, Step t, Step t] =
              s\<lparr>pool := (pool s)\<lparr>m_workqueue := q\<rparr>, pcs := (pcs s)(t := R_unlock r),
                history := history s @ [(t, EvPop r)]\<rparr>"
    using dequeue_head [of s t r q] by blast
  have 6: "pcs s t = R_wait \<and> 0 < m_queuestat (pool s) \<and> m_queuelocker (pool s) = None \<and>
          m_workqueue (pool s) = r # q \<longrightarrow>
            exec s [Step t, Step t, Step t, Step t, Step t] =
              s\<lparr>pool := (pool s)\<lparr>m_queuestat := m_queuestat (pool s) - 1,
                                  m_queuelocker := Some t, m_workqueue := q\<rparr>,
                pcs := (pcs s)(t := R_unlock r),
                history := history s @ [(t, EvWait), (t, EvLock), (t, EvPop r)]\<rparr>"
    using wake_dequeues_head [of s t r q] by blast
  from 1 have 7: "popped (history s) = take (length (popped (history s))) (pushed (history s))"
    by (metis append_eq_conv_conj)
  from 1 7 2 3 4 5 6 show ?thesis by blast
qed

theorem work_queue_fifo_witness:
  "threadpool_ctor 0 2 2 True (\<lambda>i. True) (\<lambda>i. True) = ([0, 1], Inr (example_pool 2 2 [0, 1])) \<and>
   pushed (history (exec (init_system (example_pool 2 2 [0, 1]) [0, 1]) (take 37 example_run))) =
     [Some 10, Some 20] \<and>
   popped (history (exec (init_system (example_pool 2 2 [0, 1]) [0, 1]) (take 37 example_run))) =
     [Some 10] \<and>
   m_workqueue (pool (exec (init_system (example_pool 2 2 [0, 1]) [0, 1]) (take 37 example_run))) =
     [Some 20] \<and>
   pcs (exec (init_system (example_pool 2 2 [0, 1]) [0, 1]) (take 37 example_run)) 1 =
     R_pop_front (Some 20) \<and>
   pcs (exec (init_system (example_pool 2 2 [0, 1]) [0, 1]) (take 25 example_run)) 0 = R_empty \<and>
   m_workqueue (pool (exec (init_system (example_pool 2 2 [0, 1]) [0, 1]) (take 25 example_run))) =
     [Some 10, Some 20] \<and>
   m_workqueue (pool (exec (exec (init_system (example_pool 2 2 [0, 1]) [0, 1])
      (take 25 example_run)) [Step 0, Step 0, Step 0])) = [Some 20] \<and>
   popped (history (exec (exec (init_system (example_pool 2 2 [0, 1]) [0, 1])
      (take 25 example_run)) [Step 0, Step 0, Step 0])) = [Some 10] \<and>
   holds_lock (pcs (exec (init_system (example_pool 2 2 [0, 1]) [0, 1]) (take 25 example_run)) 0) \<and>
   m_workqueue (pool (fire (exec (init_system (example_pool 2 2 [0, 1]) [0, 1])
      (take 25 example_run)) (Step 1))) = [Some 10, Some 20]"
proof -
  let ?s = "exec (init_system (example_pool 2 2 [0, 1]) [0, 1]) (take 37 example_run)"
  let ?e = "exec (init_system (example_pool 2 2 [0, 1]) [0, 1]) (take 25 example_run)"
  have pc: "pcs ?s 1 = R_pop_front (Some 20)"
    by (simp add: example_defs)
  have pu: "pushed (history ?s) = [Some 10, Some 20]"
    by (simp add: example_defs)
  have po: "popped (history ?s) = [Some 10]"
    by (simp add: example_defs)
  have e: "pcs ?e 0 = R_empty" "m_workqueue (pool ?e) = [Some 10, Some 20]"
    by (simp_all add: example_defs)
  have pe: "popped (history ?e) = []"
    by (simp add: example_defs)
  have hl: "holds_lock (pcs ?e 0)" unfolding e by simp
  from work_queue_fifo [OF example_ctor refl, of "take 37 example_run" 1 "Some 20"]
  have "popped (history ?s) @ m_workqueue (pool ?s) = pushed (history ?s)" 
    and "\<exists>q. m_workqueue (pool ?s) = Some 20 # q"
    using pc by blast+
  then have q: "m_workqueue (pool ?s) = [Some 20]" unfolding pu po by simp
  note inst = work_queue_fifo [OF example_ctor refl, where as = "take 25 example_run" and t = 0
      and r = "Some 10" and q = "[Some 20]" and a = "Step 1"]
  from inst e
  have eq: "exec ?e [Step 0, Step 0, Step 0] =
      ?e\<lparr>pool := (pool ?e)\<lparr>m_workqueue := [Some 20]\<rparr>, pcs := (pcs ?e)(0 := R_unlock (Some 10)),
        history := history ?e @ [(0, EvPop (Some 10))]\<rparr>"
    by blast
  have d1: "m_workqueue (pool (exec ?e [Step 0, Step 0, Step 0])) = [Some 20]"
    unfolding eq by simp
  have d2: "popped (history (exec ?e [Step 0, Step 0, Step 0])) = [Some 10]"
    unfolding eq using pe by (simp add: popped_append)
  have "actor (Step 1 :: nat action) \<noteq> Some 0" by simp
  with inst hl have "m_workqueue (pool (fire ?e (Step 1))) = m_workqueue (pool ?e)" by blast
  then have own: "m_workqueue (pool (fire ?e (Step 1))) = [Some 10, Some 20]"
    unfolding e .
  from example_ctor pc pu po q e d1 d2 hl own show ?thesis by blast
qed

subsection \<open>The events of one thread\<close>

lemma events_of_append: "events_of t (h @ k) = events_of t h @ events_of t k"
  by (simp add: events_of_def)

lemma events_of_single: "events_of t [(u, e)] = (if u = t then [e] else [])"
  by (simp add: events_of_def)

lemma events_of_Nil [simp]: "events_of t [] = []"
  by (simp add: events_of_def)

lemma follow_append:
  "follow d q (es @ fs) = (case follow d q es of None \<Rightarrow> None | Some q' \<Rightarrow> follow d q' fs)"
  by (induction es arbitrary: q) (simp_all split: option.splits)

lemma follow_single: "follow d q [e] = d q e"
  by (simp split: option.splits)

lemma events_of_own: "events_of t (map (Pair t) es) = es"
  by (induction es) (simp_all add: events_of_def)

lemma events_of_throw: "events_of t [(t, EvProcess r), (t, EvThrow r)] = [EvProcess r, EvThrow r]"
  by (simp add: events_of_def)

lemma fire_other:
  assumes "actor a \<noteq> Some t"
  shows "pcs (fire s a) t = pcs s t"
    and "events_of t (history (fire s a)) = events_of t (history s)"
proof -
  show "pcs (fire s a) t = pcs s t"
  proof (cases a)
    case (Step u)
    with assms have "u \<noteq> t" by simp
    then show ?thesis unfolding Step by (simp split: option.splits)
  next
    case (Throw u)
    with assms have "u \<noteq> t" by simp
    then show ?thesis unfolding Throw by (simp split: option.splits)
  qed (use assms in auto)
  show "events_of t (history (fire s a)) = events_of t (history s)"
  proof (cases a)
    case (Step u)
    with assms have "u \<noteq> t" by simp
    then show ?thesis unfolding Step
      by (cases "pcs s u") (simp_all add: events_of_append events_of_single split: list.splits)
  next
    case (Throw u)
    with assms have "u \<noteq> t" by simp
    then show ?thesis unfolding Throw
      by (cases "pcs s u" rule: throws_cases) (simp_all add: events_of_def)
  qed (use assms in \<open>auto simp: events_of_append events_of_single\<close>)
qed

lemma pop_okE:
  assumes "pop_ok x c"
  obtains waited where "x = Some waited" and "waited \<or> \<not> about_to_pop c"
  using assms by (cases x) simp_all

lemma pop_inv_step:
  assumes "pop_inv s t"
  shows "pop_inv (fire s (Step t)) t"
proof -
  from assms obtain waited
    where f: "follow pop_protocol False (events_of t (history s)) = Some waited"
      and w: "waited \<or> \<not> about_to_pop (pcs s t)"
    unfolding pop_inv_def by (rule pop_okE)
  show ?thesis using w unfolding pop_inv_def
    by (cases "pcs s t")
       (simp_all add: f events_of_append events_of_single follow_append follow_single
             split: list.splits)
qed

lemma pop_inv_fire:
  assumes "pop_inv s t"
  shows "pop_inv (fire s a) t"
proof (cases "actor a = Some t")
  case False
  then show ?thesis using assms fire_other [of a t s] by (simp add: pop_inv_def)
next
  case True
  from assms obtain waited
    where f: "follow pop_protocol False (events_of t (history s)) = Some waited"
      and w: "waited \<or> \<not> about_to_pop (pcs s t)"
    unfolding pop_inv_def by (rule pop_okE)
  show ?thesis
  proof (cases a)
    case (Step u)
    with True have "u = t" by simp
    then show ?thesis using assms Step by (simp only: pop_inv_step)
  next
    case (Call u r)
    with True have "u = t" by simp
    then show ?thesis using w unfolding Call pop_inv_def
      by (simp add: f events_of_append events_of_single follow_append follow_single)
  next
    case (Spurious u)
    with True have "u = t" by simp
    then show ?thesis using w unfolding Spurious pop_inv_def
      by (simp add: f events_of_append events_of_single follow_append follow_single)
  next
    case (Throw u)
    with True have u: "u = t" by simp
    show ?thesis
    proof (cases "pcs s t" rule: throws_cases)
      case (at r)
      show ?thesis using at unfolding Throw u fire_throw_at [OF at] pop_inv_def
        by (simp add: f events_of_append events_of_throw follow_append)
    next
      case idle
      show ?thesis unfolding Throw u fire_throw_idle [OF idle] using assms .
    qed
  next
    case Destroy
    with True show ?thesis by simp
  qed
qed

lemma pop_inv_exec: "pop_inv s t \<Longrightarrow> pop_inv (exec s as) t"
  by (induction as arbitrary: s) (simp_all add: pop_inv_fire)

lemma pop_inv_init: "pop_inv (init_system p ws) t"
  by (simp add: pop_inv_def init_system_def)


lemma removal_is_pop:
  assumes inv: "thread_inv u (pool s) (pcs s u)"
    and less: "length (m_workqueue (pool (fire s (Step u)))) < length (m_workqueue (pool s))"
  shows "\<exists>r. pcs s u = R_pop_front r \<and> m_queuelocker (pool s) = Some u \<and>
             m_workqueue (pool s) = r # m_workqueue (pool (fire s (Step u)))"
proof (cases "pcs s u")
  case (R_pop_front r)
  with inv show ?thesis by (auto simp: thread_inv_def split: list.splits)
qed (use less in \<open>simp_all split: list.splits if_splits\<close>)

subsection \<open>The worker's dequeue\<close>

text \<open>
  Claim C4: a worker removes a task only while it holds the queue lock and only from a
  queue that is not empty, and at most one task per semaphore wait.  In every state \<open>s\<close>
  the program reaches from a constructed pool: an action that shortens the queue is the
  \<^verbatim>\<open>pop_front()\<close> of a thread that owns the lock, and it removes the head, which is the
  task that thread read with \<^verbatim>\<open>front()\<close>; no thread has called \<^verbatim>\<open>front()\<close> or
  \<^verbatim>\<open>pop_front()\<close> on an empty queue; the events of every thread follow the protocol
  that accepts a dequeue only after a wait since the last dequeue; and a worker that
  finds the queue empty after its wake (line 174) unlocks and is back at the top of the
  loop two statements later, with the queue untouched.
\<close>

theorem worker_pop_guarded:
  assumes "threadpool_ctor connPool n m alloc_ok create_ok detach_ok = (ws, Inr p)"
    and "s = exec (init_system p ws) as"
  shows "(length (m_workqueue (pool (fire s a))) < length (m_workqueue (pool s)) \<longrightarrow>
            (\<exists>u r. a = Step u \<and> pcs s u = R_pop_front r \<and> m_queuelocker (pool s) = Some u \<and>
                   m_workqueue (pool s) = r # m_workqueue (pool (fire s a)))) \<and>
         pcs s t \<noteq> Undefined_behaviour \<and>
         follow pop_protocol False (events_of t (history s)) \<noteq> None \<and>
         (pcs s t = R_empty \<and> m_workqueue (pool s) = [] \<longrightarrow>
            exec s [Step t, Step t] =
              s\<lparr>pool := (pool s)\<lparr>m_queuelocker := None\<rparr>, pcs := (pcs s)(t := R_while),
                history := history s @ [(t, EvUnlock)]\<rparr>)"
proof -
  have inv: "sys_inv s"
    unfolding assms(2) using assms(1) by (rule sys_inv_reachable)
  then have ti: "thread_inv u (pool s) (pcs s u)" for u by (simp add: sys_inv_def)
  have A: "length (m_workqueue (pool (fire s a))) < length (m_workqueue (pool s)) \<longrightarrow>
            (\<exists>u r. a = Step u \<and> pcs s u = R_pop_front r \<and> m_queuelocker (pool s) = Some u \<and>
                   m_workqueue (pool s) = r # m_workqueue (pool (fire s a)))"
  proof (cases a)
    case (Step u)
    show ?thesis unfolding Step using removal_is_pop [OF ti [of u]] by blast
  next
    case (Throw u)
    show ?thesis unfolding Throw by (simp only: fire_throw_pool) simp
  qed (simp_all add: threadpool_dtor_def)
  have B: "pcs s t \<noteq> Undefined_behaviour"
    using ti [of t] by (auto simp: thread_inv_def)
  have "pop_inv s t"
    unfolding assms(2) using pop_inv_init by (rule pop_inv_exec)
  then have C: "follow pop_protocol False (events_of t (history s)) \<noteq> None"
    unfolding pop_inv_def by (auto elim: pop_okE)
  have D: "pcs s t = R_empty \<and> m_workqueue (pool s) = [] \<longrightarrow>
            exec s [Step t, Step t] =
              s\<lparr>pool := (pool s)\<lparr>m_queuelocker := None\<rparr>, pcs := (pcs s)(t := R_while),
                history := history s @ [(t, EvUnlock)]\<rparr>"
    by simp
  from A B C D show ?thesis by blast
qed

theorem worker_pop_guarded_witness:
  "threadpool_ctor 0 2 2 True (\<lambda>i. True) (\<lambda>i. True) = ([0, 1], Inr (example_pool 2 2 [0, 1])) \<and>
   length (m_workqueue (pool (fire (exec (init_system (example_pool 2 2 [0, 1]) [0, 1])
       (take 37 example_run)) (Step 1)))) <
     length (m_workqueue (pool (exec (init_system (example_pool 2 2 [0, 1]) [0, 1])
       (take 37 example_run)))) \<and>
   pcs (exec (init_system (example_pool 2 2 [0, 1]) [0, 1]) (take 37 example_run)) 1 =
     R_pop_front (Some 20) \<and>
   m_queuelocker (pool (exec (init_system (example_pool 2 2 [0, 1]) [0, 1])
     (take 37 example_run))) = Some 1 \<and>
   pcs (exec (init_system (example_pool 2 2 [0, 1]) [0, 1]) (take 4 example_run)) 1 = R_empty \<and>
   m_workqueue (pool (exec (init_system (example_pool 2 2 [0, 1]) [0, 1])
     (take 4 example_run))) = [] \<and>
   pcs (exec (exec (init_system (example_pool 2 2 [0, 1]) [0, 1]) (take 4 example_run))
     [Step 1, Step 1]) 1 = R_while \<and>
   history (exec (exec (init_system (example_pool 2 2 [0, 1]) [0, 1]) (take 4 example_run))
     [Step 1, Step 1]) = [(1, EvWait), (1, EvLock), (1, EvUnlock)]"
proof -
  let ?s = "exec (init_system (example_pool 2 2 [0, 1]) [0, 1]) (take 37 example_run)"
  let ?e = "exec (init_system (example_pool 2 2 [0, 1]) [0, 1]) (take 4 example_run)"
  have less: "length (m_workqueue (pool (fire ?s (Step 1)))) < length (m_workqueue (pool ?s))"
    by (simp add: example_defs)
  have pc: "pcs ?s 1 = R_pop_front (Some 20)"
    by (simp add: example_defs)
  have e: "pcs ?e 1 = R_empty" "m_workqueue (pool ?e) = []"
    by (simp_all add: example_defs)
  from worker_pop_guarded [OF example_ctor refl, of "take 37 example_run" "Step 1" 1] less
  obtain u r where "Step 1 = Step u" and "pcs ?s u = R_pop_front r"
    and "m_queuelocker (pool ?s) = Some u"
    by blast
  then have lock: "m_queuelocker (pool ?s) = Some 1" by simp
  from worker_pop_guarded [OF example_ctor refl, of "take 4 example_run" _ 1] e
  have eq: "exec ?e [Step 1, Step 1] =
          ?e\<lparr>pool := (pool ?e)\<lparr>m_queuelocker := None\<rparr>, pcs := (pcs ?e)(1 := R_while),
            history := history ?e @ [(1, EvUnlock)]\<rparr>"
    by blast
  have "pcs (exec ?e [Step 1, Step 1]) 1 = R_while"
    unfolding eq by simp
  moreover have "history (exec ?e [Step 1, Step 1]) = [(1, EvWait), (1, EvLock), (1, EvUnlock)]"
    unfolding eq by (simp add: example_defs)
  ultimately show ?thesis using example_ctor less pc lock e by blast
qed

subsection \<open>Scoped acquisition, as an invariant\<close>

lemma scope_inv_step:
  assumes "scope_inv s t"
  shows "scope_inv (fire s (Step t)) t"
proof -
  from assms
  have f: "follow scope_protocol No_handle (events_of t (history s)) = Some (scope_phase_of (pcs s t))"
    by (simp add: scope_inv_def)
  show ?thesis unfolding scope_inv_def
    by (cases "pcs s t")
       (simp_all add: f events_of_append events_of_single follow_append follow_single
             split: list.splits)
qed

lemma scope_inv_fire:
  assumes "scope_inv s t"
  shows "scope_inv (fire s a) t"
proof (cases "actor a = Some t")
  case False
  then show ?thesis using assms fire_other [of a t s] by (simp add: scope_inv_def)
next
  case True
  from assms
  have f: "follow scope_protocol No_handle (events_of t (history s)) = Some (scope_phase_of (pcs s t))"
    by (simp add: scope_inv_def)
  show ?thesis
  proof (cases a)
    case (Step u)
    with True have "u = t" by simp
    then show ?thesis using assms Step by (simp only: scope_inv_step)
  next
    case (Call u r)
    with True have "u = t" by simp
    then show ?thesis unfolding Call scope_inv_def
      by (simp add: f events_of_append events_of_single follow_append follow_single)
  next
    case (Spurious u)
    with True have "u = t" by simp
    then show ?thesis unfolding Spurious scope_inv_def
      by (simp add: f events_of_append events_of_single follow_append follow_single)
  next
    case (Throw u)
    with True have u: "u = t" by simp
    show ?thesis
    proof (cases "pcs s t" rule: throws_cases)
      case (at r)
      from f at
      have "follow scope_protocol No_handle (events_of t (history s)) = Some (Holding r)"
        by simp
      then show ?thesis unfolding Throw u fire_throw_at [OF at] scope_inv_def
        by (simp add: events_of_append events_of_throw follow_append)
    next
      case idle
      show ?thesis unfolding Throw u fire_throw_idle [OF idle] using assms .
    qed
  next
    case Destroy
    with True show ?thesis by simp
  qed
qed

lemma scope_inv_exec: "scope_inv s t \<Longrightarrow> scope_inv (exec s as) t"
  by (induction as arbitrary: s) (simp_all add: scope_inv_fire)

lemma scope_inv_init: "scope_inv (init_system p ws) t"
  by (simp add: scope_inv_def init_system_def)

subsection \<open>The database handle\<close>

lemma terminated_fire:
  assumes "pcs st t = R_terminate r"
  shows "pcs (fire st a) t = R_terminate r \<and>
         events_of t (history (fire st a)) = events_of t (history st)"
proof (cases "actor a = Some t")
  case False
  with assms show ?thesis using fire_other [of a t st] by simp
next
  case True
  have "fire st a = st"
  proof (cases a)
    case (Call u x)
    with True assms show ?thesis by simp
  next
    case (Step u)
    with True assms show ?thesis by simp
  next
    case (Spurious u)
    with True assms show ?thesis by simp
  next
    case (Throw u)
    with True assms show ?thesis by simp
  next
    case Destroy
    with True show ?thesis by simp
  qed
  with assms show ?thesis by simp
qed

lemma terminated_exec:
  assumes "pcs st t = R_terminate r"
  shows "pcs (exec st acts) t = R_terminate r \<and>
         events_of t (history (exec st acts)) = events_of t (history st)"
  using assms
proof (induction acts arbitrary: st)
  case Nil
  then show ?case by simp
next
  case (Cons a acts)
  from terminated_fire [OF Cons.prems, of a] Cons.IH [of "fire st a"]
  show ?case by simp
qed

lemma scope_returns:
  assumes "pcs st t = R_acquire r"
  shows "exec st [Step t, Step t, Step t] =
           st\<lparr>pcs := (pcs st)(t := R_while),
              history := history st @ [(t, EvAcquire r), (t, EvProcess r), (t, EvRelease r)]\<rparr>"
  using assms by simp

lemma scope_throws:
  assumes "pcs st t = R_acquire r"
  shows "exec st [Step t, Throw t] =
           st\<lparr>pcs := (pcs st)(t := R_terminate r),
              history := history st @ [(t, EvAcquire r), (t, EvProcess r), (t, EvThrow r)]\<rparr>"
  using assms by simp

text \<open>
  Claim C6 says that for every task a worker executes one database handle is acquired
  right before \<^verbatim>\<open>process()\<close> and released on every exit path from that iteration.  One
  path is left out.  The handle is released by the destructor of \<^verbatim>\<open>mysqlcon\<close> at the end
  of the block (line 193); \<^verbatim>\<open>run\<close> has no handler around \<^verbatim>\<open>request->process()\<close> (line
  192), and \<^verbatim>\<open>worker\<close> has none around \<^verbatim>\<open>pool->run()\<close> (line 155).  In the run below worker
  1 dequeues task 20, acquires the handle and calls \<^verbatim>\<open>process()\<close>, which throws: the
  events of the worker end with the acquisition, the call and the exception, there is no
  release among them, and the worker makes no further step.
\<close>

theorem process_throws_handle_not_released:
  "threadpool_ctor 0 2 2 True (\<lambda>i. True) (\<lambda>i. True) = ([0, 1], Inr (example_pool 2 2 [0, 1])) \<and>
   pcs (exec (init_system (example_pool 2 2 [0, 1]) [0, 1]) (take 42 example_run)) 1 =
     R_process (Some 20) \<and>
   events_of 1 (history (exec (init_system (example_pool 2 2 [0, 1]) [0, 1])
       (take 42 example_run @ [Throw 1, Step 1, Step 0, Step 1]))) =
     [EvWait, EvLock, EvUnlock, EvWait, EvLock, EvPop (Some 20), EvUnlock, EvAcquire (Some 20),
      EvProcess (Some 20), EvThrow (Some 20)] \<and>
   EvRelease (Some 20) \<notin> set (events_of 1 (history (exec (init_system (example_pool 2 2 [0, 1]) [0, 1])
       (take 42 example_run @ [Throw 1, Step 1, Step 0, Step 1])))) \<and>
   pcs (exec (init_system (example_pool 2 2 [0, 1]) [0, 1])
       (take 42 example_run @ [Throw 1, Step 1, Step 0, Step 1])) 1 = R_terminate (Some 20) \<and>
   thread_step 1 (pool (exec (init_system (example_pool 2 2 [0, 1]) [0, 1])
       (take 42 example_run @ [Throw 1, Step 1, Step 0, Step 1]))) (R_terminate (Some 20)) = None"
proof -
  let ?s = "exec (init_system (example_pool 2 2 [0, 1]) [0, 1])
       (take 42 example_run @ [Throw 1, Step 1, Step 0, Step 1])"
  have 1: "pcs (exec (init_system (example_pool 2 2 [0, 1]) [0, 1]) (take 42 example_run)) 1 =
     R_process (Some 20)"
    by (simp add: example_defs)
  have 2: "events_of 1 (history ?s) =
     [EvWait, EvLock, EvUnlock, EvWait, EvLock, EvPop (Some 20), EvUnlock, EvAcquire (Some 20),
      EvProcess (Some 20), EvThrow (Some 20)]"
    by (simp add: example_defs events_of_def)
  have 3: "EvRelease (Some 20) \<notin> set (events_of 1 (history ?s))"
    unfolding 2 by simp
  have 4: "pcs ?s 1 = R_terminate (Some 20)"
    by (simp add: example_defs)
  have 5: "thread_step 1 (pool ?s) (R_terminate (Some 20)) = None"
    by simp
  from example_ctor 1 2 3 4 5 show ?thesis by blast
qed

text \<open>
  Claim C6, amended: for every task a worker executes, one database handle is acquired
  right before \<^verbatim>\<open>process()\<close> is called; when \<^verbatim>\<open>process()\<close> returns the handle is released
  at the end of that iteration, before the worker is back at the test of the loop and at
  its semaphore wait; when \<^verbatim>\<open>process()\<close> throws, the worker makes no further step and the
  handle is not released.
  In every state the program reaches from a constructed pool, the events of every thread
  follow the protocol of scoped acquisition (\<^verbatim>\<open>process()\<close> on a task only right after the
  handle for that task was acquired, then the release or the exception, nothing else in
  between), and the protocol is in the state the thread's next statement stands for, so no
  handle is out at the top of the loop or at the wait.  From any state, a worker about to
  construct \<^verbatim>\<open>mysqlcon\<close> acquires, calls \<^verbatim>\<open>process()\<close> and, when that returns, releases and
  is at the top of the loop, in three statements that can always be executed; when
  \<^verbatim>\<open>process()\<close> throws instead it is at \<open>R_terminate\<close>, the release has not happened, and
  whatever actions follow, it stays there and has no further event.
\<close>

theorem handle_scoped_to_process:
  assumes "threadpool_ctor connPool n m alloc_ok create_ok detach_ok = (ws, Inr p)"
    and "s = exec (init_system p ws) acts"
  shows "follow scope_protocol No_handle (events_of t (history s)) =
           Some (scope_phase_of (pcs s t)) \<and>
         (pcs s t = R_while \<or> pcs s t = R_wait \<longrightarrow>
            follow scope_protocol No_handle (events_of t (history s)) = Some No_handle) \<and>
         (pcs st t = R_acquire r \<longrightarrow>
            exec st [Step t, Step t, Step t] =
              st\<lparr>pcs := (pcs st)(t := R_while),
                 history := history st @ [(t, EvAcquire r), (t, EvProcess r), (t, EvRelease r)]\<rparr>) \<and>
         (pcs st t = R_acquire r \<longrightarrow>
            exec st [Step t, Throw t] =
              st\<lparr>pcs := (pcs st)(t := R_terminate r),
                 history := history st @ [(t, EvAcquire r), (t, EvProcess r), (t, EvThrow r)]\<rparr>) \<and>
         (pcs st t = R_terminate r \<longrightarrow>
            pcs (exec st more_acts) t = R_terminate r \<and>
            events_of t (history (exec st more_acts)) = events_of t (history st))"
proof -
  have "scope_inv s t"
    unfolding assms(2) using scope_inv_init by (rule scope_inv_exec)
  then have 1: "follow scope_protocol No_handle (events_of t (history s)) =
           Some (scope_phase_of (pcs s t))"
    by (simp add: scope_inv_def)
  then have 2: "pcs s t = R_while \<or> pcs s t = R_wait \<longrightarrow>
            follow scope_protocol No_handle (events_of t (history s)) = Some No_handle"
    by auto
  have 3: "pcs st t = R_acquire r \<longrightarrow>
            exec st [Step t, Step t, Step t] =
              st\<lparr>pcs := (pcs st)(t := R_while),
                 history := history st @ [(t, EvAcquire r), (t, EvProcess r), (t, EvRelease r)]\<rparr>"
    using scope_returns [of st t r] by blast
  have 4: "pcs st t = R_acquire r \<longrightarrow>
            exec st [Step t, Throw t] =
              st\<lparr>pcs := (pcs st)(t := R_terminate r),
                 history := history st @ [(t, EvAcquire r), (t, EvProcess r), (t, EvThrow r)]\<rparr>"
    using scope_throws [of st t r] by blast
  have 5: "pcs st t = R_terminate r \<longrightarrow>
            pcs (exec st more_acts) t = R_terminate r \<and>
            events_of t (history (exec st more_acts)) = events_of t (history st)"
    using terminated_exec [of st t r more_acts] by blast
  from 1 2 3 4 5 show ?thesis by blast
qed

theorem handle_scoped_to_process_witness:
  "threadpool_ctor 0 2 2 True (\<lambda>i. True) (\<lambda>i. True) = ([0, 1], Inr (example_pool 2 2 [0, 1])) \<and>
   events_of 0 (history (exec (init_system (example_pool 2 2 [0, 1]) [0, 1]) (take 39 example_run))) =
     [EvWait, EvLock, EvPop (Some 10), EvUnlock, EvAcquire (Some 10), EvProcess (Some 10),
      EvRelease (Some 10)] \<and>
   pcs (exec (init_system (example_pool 2 2 [0, 1]) [0, 1]) (take 39 example_run)) 0 = R_while \<and>
   follow scope_protocol No_handle
     (events_of 0 (history (exec (init_system (example_pool 2 2 [0, 1]) [0, 1])
        (take 39 example_run)))) = Some No_handle \<and>
   pcs (exec (init_system (example_pool 2 2 [0, 1]) [0, 1]) example_run) 1 =
     R_release (Some 20) \<and>
   follow scope_protocol No_handle
     (events_of 1 (history (exec (init_system (example_pool 2 2 [0, 1]) [0, 1])
        example_run))) = Some (Processed (Some 20)) \<and>
   pcs (exec (init_system (example_pool 2 2 [0, 1]) [0, 1]) (take 41 example_run)) 1 =
     R_acquire (Some 20) \<and>
   pcs (exec (exec (init_system (example_pool 2 2 [0, 1]) [0, 1]) (take 41 example_run))
     [Step 1, Step 1, Step 1]) 1 = R_while \<and>
   events_of 1 (history (exec (exec (init_system (example_pool 2 2 [0, 1]) [0, 1])
     (take 41 example_run)) [Step 1, Step 1, Step 1])) =
     [EvWait, EvLock, EvUnlock, EvWait, EvLock, EvPop (Some 20), EvUnlock, EvAcquire (Some 20),
      EvProcess (Some 20), EvRelease (Some 20)] \<and>
   pcs (exec (exec (init_system (example_pool 2 2 [0, 1]) [0, 1]) (take 41 example_run))
     [Step 1, Throw 1]) 1 = R_terminate (Some 20) \<and>
   pcs (exec (exec (exec (init_system (example_pool 2 2 [0, 1]) [0, 1]) (take 41 example_run))
     [Step 1, Throw 1]) [Step 1, Step 0]) 1 = R_terminate (Some 20)"
proof -
  let ?s = "exec (init_system (example_pool 2 2 [0, 1]) [0, 1]) (take 39 example_run)"
  let ?e = "exec (init_system (example_pool 2 2 [0, 1]) [0, 1]) example_run"
  let ?a = "exec (init_system (example_pool 2 2 [0, 1]) [0, 1]) (take 41 example_run)"
  have ev: "events_of 0 (history ?s) =
     [EvWait, EvLock, EvPop (Some 10), EvUnlock, EvAcquire (Some 10), EvProcess (Some 10),
      EvRelease (Some 10)]"
    by (simp add: example_defs events_of_def)
  have pc0: "pcs ?s 0 = R_while"
    by (simp add: example_defs)
  have pc1: "pcs ?e 1 = R_release (Some 20)"
    by (simp add: example_defs)
  have pca: "pcs ?a 1 = R_acquire (Some 20)"
    by (simp add: example_defs)
  have eva: "events_of 1 (history ?a) =
      [EvWait, EvLock, EvUnlock, EvWait, EvLock, EvPop (Some 20), EvUnlock]"
    by (simp add: example_defs events_of_def)
  from handle_scoped_to_process [OF example_ctor refl, where acts = "take 39 example_run" and t = 0] pc0
  have a: "follow scope_protocol No_handle (events_of 0 (history ?s)) = Some No_handle"
    by blast
  from handle_scoped_to_process [OF example_ctor refl, where acts = example_run and t = 1]
  have "follow scope_protocol No_handle (events_of 1 (history ?e)) =
          Some (scope_phase_of (pcs ?e 1))"
    by blast
  then have b: "follow scope_protocol No_handle (events_of 1 (history ?e)) =
          Some (Processed (Some 20))"
    unfolding pc1 by simp
  note inst = handle_scoped_to_process [OF example_ctor refl, where st = ?a and t = 1
      and r = "Some 20"]
  from inst pca
  have ret: "exec ?a [Step 1, Step 1, Step 1] =
      ?a\<lparr>pcs := (pcs ?a)(1 := R_while),
        history := history ?a @ [(1, EvAcquire (Some 20)), (1, EvProcess (Some 20)),
                                 (1, EvRelease (Some 20))]\<rparr>"
    by blast
  from inst pca
  have thr: "exec ?a [Step 1, Throw 1] =
      ?a\<lparr>pcs := (pcs ?a)(1 := R_terminate (Some 20)),
        history := history ?a @ [(1, EvAcquire (Some 20)), (1, EvProcess (Some 20)),
                                 (1, EvThrow (Some 20))]\<rparr>"
    by blast
  have c: "pcs (exec ?a [Step 1, Step 1, Step 1]) 1 = R_while"
    unfolding ret by simp
  have d: "events_of 1 (history (exec ?a [Step 1, Step 1, Step 1])) =
     [EvWait, EvLock, EvUnlock, EvWait, EvLock, EvPop (Some 20), EvUnlock, EvAcquire (Some 20),
      EvProcess (Some 20), EvRelease (Some 20)]"
    unfolding ret using eva by (simp add: events_of_append) (simp add: events_of_def)
  have e: "pcs (exec ?a [Step 1, Throw 1]) 1 = R_terminate (Some 20)"
    unfolding thr by simp
  from handle_scoped_to_process [OF example_ctor refl, where st = "exec ?a [Step 1, Throw 1]"
      and t = 1 and r = "Some 20" and more_acts = "[Step 1, Step 0]"] e
  have f: "pcs (exec (exec ?a [Step 1, Throw 1]) [Step 1, Step 0]) 1 = R_terminate (Some 20)"
    by blast
  from example_ctor ev pc0 a pc1 b pca c d e f show ?thesis by blast
qed

subsection \<open>The protocol of append, as an invariant\<close>

lemma append_inv_step:
  assumes "append_inv s t"
  shows "append_inv (fire s (Step t)) t"
proof -
  from assms
  have f: "follow append_protocol Not_appending (events_of t (history s)) =
             Some (append_phase_of (pcs s t))"
    and r: "\<not> in_run (pcs s t)"
    by (simp_all add: append_inv_def)
  show ?thesis using r unfolding append_inv_def
    by (cases "pcs s t")
       (simp_all add: f events_of_append events_of_single follow_append follow_single)
qed

lemma append_inv_fire:
  assumes "append_inv s t"
  shows "append_inv (fire s a) t"
proof (cases "actor a = Some t")
  case False
  then show ?thesis using assms fire_other [of a t s] by (simp add: append_inv_def)
next
  case True
  from assms
  have f: "follow append_protocol Not_appending (events_of t (history s)) =
             Some (append_phase_of (pcs s t))"
    and r: "\<not> in_run (pcs s t)"
    by (simp_all add: append_inv_def)
  show ?thesis
  proof (cases a)
    case (Step u)
    with True have "u = t" by simp
    then show ?thesis using assms Step by (simp only: append_inv_step)
  next
    case (Call u r)
    with True have "u = t" by simp
    then show ?thesis using r unfolding Call append_inv_def
      by (simp add: f events_of_append events_of_single follow_append follow_single)
  next
    case (Spurious u)
    with True have "u = t" by simp
    then show ?thesis using r unfolding Spurious append_inv_def
      by (auto simp add: f events_of_append events_of_single follow_append follow_single)
  next
    case (Throw u)
    with True have u: "u = t" by simp
    from r have "throws (pcs s t) = None" by (cases "pcs s t") simp_all
    then show ?thesis unfolding Throw u using assms by (simp only: fire_throw_idle)
  next
    case Destroy
    with True show ?thesis by simp
  qed
qed

lemma append_inv_exec: "append_inv s t \<Longrightarrow> append_inv (exec s as) t"
  by (induction as arbitrary: s) (simp_all add: append_inv_fire)

lemma append_inv_init: "t \<notin> set ws \<Longrightarrow> append_inv (init_system p ws) t"
  by (simp add: append_inv_def init_system_def)

lemma append_alone_accepts:
  assumes "pcs s t = Idle" and "m_queuelocker (pool s) = None" and "\<not> queue_exceeds (pool s)"
  shows "exec s (append_alone t r) =
           s\<lparr>pool := (pool s)\<lparr>m_workqueue := m_workqueue (pool s) @ [r],
                               m_queuestat := m_queuestat (pool s) + 1\<rparr>,
             history := history s @ [(t, EvCall r), (t, EvLock), (t, EvPush r), (t, EvUnlock),
                                     (t, EvPost), (t, EvReturn True)]\<rparr>"
proof -
  have "(pcs s)(t := Idle) = pcs s" using assms(1) by auto
  then show ?thesis using assms by (simp add: append_alone_def queue_exceeds_def)
qed

lemma append_alone_rejects:
  assumes "pcs s t = Idle" and "m_queuelocker (pool s) = None" and "queue_exceeds (pool s)"
  shows "exec s (append_alone t r) =
           s\<lparr>history := history s @ [(t, EvCall r), (t, EvLock), (t, EvUnlock),
                                     (t, EvReturn False)]\<rparr>"
proof -
  have "(pcs s)(t := Idle) = pcs s" using assms(1) by auto
  moreover have "(pool s)\<lparr>m_queuelocker := None\<rparr> = pool s" using assms(2) by simp
  ultimately show ?thesis using assms by (simp add: append_alone_def queue_exceeds_def)
qed

subsection \<open>The account of a thread\<close>

lemma posted_append: "posted (h @ k) = posted h + posted k"
  by (induction h rule: posted.induct) simp_all

lemma own_append: "own t (h @ k) = own t h @ own t k"
  by (simp add: own_def)

lemma own_self: "own t (map (Pair t) es) = map (Pair t) es"
  by (induction es) (simp_all add: own_def)

lemma own_other: "u \<noteq> t \<Longrightarrow> own t (map (Pair u) es) = []"
  by (induction es) (simp_all add: own_def)

lemma own_Nil [simp]: "own t [] = []"
  by (simp add: own_def)

lemma own_single: "own t [(u, e)] = (if u = t then [(u, e)] else [])"
  by (simp add: own_def)

lemma fire_other_own:
  assumes "actor a \<noteq> Some t"
  shows "own t (history (fire s a)) = own t (history s)"
proof (cases a)
  case (Step u)
  with assms have "u \<noteq> t" by simp
  then show ?thesis unfolding Step
    by (cases "thread_step u (pool s) (pcs s u)") (auto simp: own_append own_other)
next
  case (Throw u)
  with assms have "u \<noteq> t" by simp
  then show ?thesis unfolding Throw
    by (cases "throws (pcs s u)") (auto simp: own_append own_other)
qed (use assms in \<open>auto simp: own_append own_single\<close>)

lemma account_inv_step:
  assumes "account_inv s t"
  shows "account_inv (fire s (Step t)) t"
  using assms unfolding account_inv_def
  by (cases "pcs s t")
     (simp_all add: own_append own_single events_of_append events_of_single posted_append
        pushed_append split: list.splits)

lemma account_inv_fire:
  assumes "account_inv s t"
  shows "account_inv (fire s a) t"
proof (cases "actor a = Some t")
  case False
  then show ?thesis using assms fire_other [of a t s] fire_other_own [of a t s]
    by (simp add: account_inv_def)
next
  case True
  show ?thesis
  proof (cases a)
    case (Step u)
    with True have "u = t" by simp
    then show ?thesis using assms Step by (simp only: account_inv_step)
  next
    case (Call u r)
    with True have "u = t" by simp
    then show ?thesis using assms unfolding Call account_inv_def
      by (simp add: own_append own_single events_of_append events_of_single posted_append
          pushed_append)
  next
    case (Spurious u)
    with True have "u = t" by simp
    then show ?thesis using assms unfolding Spurious account_inv_def
      by (simp add: own_append own_single events_of_append events_of_single posted_append
          pushed_append)
  next
    case (Throw u)
    with True have u: "u = t" by simp
    show ?thesis
    proof (cases "pcs s t" rule: throws_cases)
      case (at r)
      show ?thesis using assms at unfolding Throw u fire_throw_at [OF at] account_inv_def
        by (simp add: own_append own_def events_of_append events_of_throw posted_append
            pushed_append)
    next
      case idle
      show ?thesis unfolding Throw u fire_throw_idle [OF idle] using assms .
    qed
  next
    case Destroy
    with True show ?thesis by simp
  qed
qed

lemma account_inv_exec: "account_inv s t \<Longrightarrow> account_inv (exec s as) t"
  by (induction as arbitrary: s) (simp_all add: account_inv_fire)

lemma account_inv_init: "account_inv (init_system p ws) t"
  by (simp add: account_inv_def init_system_def)

subsection \<open>The atomicity of append\<close>

lemma history_grows: "history (fire st a) = history st @ added st a"
proof (cases a)
  case (Step v)
  show ?thesis unfolding Step by (cases "thread_step v (pool st) (pcs st v)") (auto simp: added_def)
next
  case (Throw v)
  show ?thesis unfolding Throw by (cases "throws (pcs st v)") (auto simp: added_def)
qed (simp_all add: added_def)

lemma append_effect:
  assumes "actor a = Some u" and "\<not> in_run (pcs st u)"
  shows "m_workqueue (pool (fire st a)) = m_workqueue (pool st) @ pushed (added st a) \<and>
         m_queuestat (pool (fire st a)) = m_queuestat (pool st) + posted (added st a)"
proof (cases a)
  case (Call v r)
  with assms(1) show ?thesis by (simp add: added_def)
next
  case (Step v)
  with assms(1) have v: "v = u" by simp
  show ?thesis unfolding Step v using assms(2)
    by (cases "pcs st u") (simp_all add: added_def)
next
  case (Spurious v)
  with assms(1) have v: "v = u" by simp
  from assms(2) have "pcs st u \<noteq> R_wait" by auto
  then show ?thesis unfolding Spurious v by (simp add: added_def)
next
  case (Throw v)
  with assms(1) have v: "v = u" by simp
  from assms(2) have "throws (pcs st u) = None" by (cases "pcs st u") simp_all
  then show ?thesis unfolding Throw v by (simp add: added_def)
next
  case Destroy
  with assms(1) show ?thesis by simp
qed

text \<open>
  Claim C3: \<^verbatim>\<open>append\<close> blocks nowhere but at the queue lock; a call that returns false has
  left the queue and the semaphore alone; a call that returns true has added its task at
  the tail and posted the semaphore, each once, the post after the unlock.
  First, on any pool, every statement of \<^verbatim>\<open>append\<close> but \<^verbatim>\<open>lock()\<close> can always be
  executed, and \<^verbatim>\<open>lock()\<close> waits exactly while the lock is owned.  Second, a call no
  other thread interferes with, from any state with the lock free: when the test of line
  129 holds it changes nothing but the history (lock, unlock, return false); otherwise the
  queue has the task at its tail, the semaphore is one higher, and the history has lock,
  push, unlock, post, return true in this order.  Third, whatever the other threads do
  and whatever state they have left: an action of a thread that is not a worker adds to
  the tail of the queue exactly the tasks of the pushes among its events and raises the
  semaphore by exactly the number of posts among its events, and an action of another
  thread adds nothing to the events of the thread.  Fourth, in every state the program
  reaches from a constructed pool, whatever the interleaving, the events of a thread that
  is not a worker follow the protocol of \<^verbatim>\<open>append\<close>, which admits exactly two sequences
  for a call: lock, unlock, return false, with no push and no post; and lock, the push of
  the argument, unlock, post, return true.  Fifth, in every such state a thread has posted
  the semaphore exactly once for each of its calls that has returned true, and once more
  when it is between the post and the return, and it has pushed exactly one task for each
  of these calls, and one more when it is between the push and the return: a call that
  returns false has neither pushed nor posted.
\<close>

theorem append_atomic:
  assumes "threadpool_ctor connPool n m alloc_ok create_ok detach_ok = (ws, Inr p)"
    and "s = exec (init_system p ws) acts"
  shows "thread_step u q (A_check r) \<noteq> None \<and> thread_step u q (A_unlock_full r) \<noteq> None \<and>
         thread_step u q (A_push r) \<noteq> None \<and> thread_step u q A_unlock \<noteq> None \<and>
         thread_step u q A_post \<noteq> None \<and> thread_step u q (A_return b) \<noteq> None \<and>
         (thread_step u q (A_lock r) = None) = (m_queuelocker q \<noteq> None) \<and>
         (pcs st u = Idle \<and> m_queuelocker (pool st) = None \<longrightarrow>
            exec st (append_alone u r) =
              (if queue_exceeds (pool st)
               then st\<lparr>history := history st @ [(u, EvCall r), (u, EvLock), (u, EvUnlock),
                                                 (u, EvReturn False)]\<rparr>
               else st\<lparr>pool := (pool st)\<lparr>m_workqueue := m_workqueue (pool st) @ [r],
                                             m_queuestat := m_queuestat (pool st) + 1\<rparr>,
                       history := history st @ [(u, EvCall r), (u, EvLock), (u, EvPush r),
                                                 (u, EvUnlock), (u, EvPost), (u, EvReturn True)]\<rparr>)) \<and>
         (actor a = Some u \<and> \<not> in_run (pcs st u) \<longrightarrow>
            m_workqueue (pool (fire st a)) = m_workqueue (pool st) @ pushed (added st a) \<and>
            m_queuestat (pool (fire st a)) = m_queuestat (pool st) + posted (added st a) \<and>
            history (fire st a) = history st @ added st a) \<and>
         (actor a \<noteq> Some u \<longrightarrow> events_of u (added st a) = []) \<and>
         (t \<notin> set ws \<longrightarrow>
            follow append_protocol Not_appending (events_of t (history s)) =
              Some (append_phase_of (pcs s t))) \<and>
         posted (own t (history s)) =
           count_list (events_of t (history s)) (EvReturn True) + posting (pcs s t) \<and>
         length (pushed (own t (history s))) =
           count_list (events_of t (history s)) (EvReturn True) + pushing (pcs s t)"
proof -
  have a: "thread_step u q (A_check r) \<noteq> None \<and> thread_step u q (A_unlock_full r) \<noteq> None \<and>
         thread_step u q (A_push r) \<noteq> None \<and> thread_step u q A_unlock \<noteq> None \<and>
         thread_step u q A_post \<noteq> None \<and> thread_step u q (A_return b) \<noteq> None \<and>
         (thread_step u q (A_lock r) = None) = (m_queuelocker q \<noteq> None)"
    by simp
  have b: "pcs st u = Idle \<and> m_queuelocker (pool st) = None \<longrightarrow>
            exec st (append_alone u r) =
              (if queue_exceeds (pool st)
               then st\<lparr>history := history st @ [(u, EvCall r), (u, EvLock), (u, EvUnlock),
                                                 (u, EvReturn False)]\<rparr>
               else st\<lparr>pool := (pool st)\<lparr>m_workqueue := m_workqueue (pool st) @ [r],
                                             m_queuestat := m_queuestat (pool st) + 1\<rparr>,
                       history := history st @ [(u, EvCall r), (u, EvLock), (u, EvPush r),
                                                 (u, EvUnlock), (u, EvPost), (u, EvReturn True)]\<rparr>)"
    using append_alone_accepts [of st u r] append_alone_rejects [of st u r] by simp
  have grows: "history (fire st a) = history st @ added st a"
    by (rule history_grows)
  have c: "actor a = Some u \<and> \<not> in_run (pcs st u) \<longrightarrow>
            m_workqueue (pool (fire st a)) = m_workqueue (pool st) @ pushed (added st a) \<and>
            m_queuestat (pool (fire st a)) = m_queuestat (pool st) + posted (added st a) \<and>
            history (fire st a) = history st @ added st a"
    using append_effect [of a u st] grows by blast
  have d: "actor a \<noteq> Some u \<longrightarrow> events_of u (added st a) = []"
  proof
    assume "actor a \<noteq> Some u"
    from fire_other(2) [OF this, of st] grows
    show "events_of u (added st a) = []" by (simp add: events_of_append)
  qed
  have e: "t \<notin> set ws \<longrightarrow>
            follow append_protocol Not_appending (events_of t (history s)) =
              Some (append_phase_of (pcs s t))"
  proof
    assume "t \<notin> set ws"
    then have "append_inv (init_system p ws) t" by (rule append_inv_init)
    then have "append_inv s t" unfolding assms(2) by (rule append_inv_exec)
    then show "follow append_protocol Not_appending (events_of t (history s)) =
              Some (append_phase_of (pcs s t))"
      by (simp add: append_inv_def)
  qed
  have "account_inv s t"
    unfolding assms(2) using account_inv_init by (rule account_inv_exec)
  then have f: "posted (own t (history s)) =
           count_list (events_of t (history s)) (EvReturn True) + posting (pcs s t) \<and>
         length (pushed (own t (history s))) =
           count_list (events_of t (history s)) (EvReturn True) + pushing (pcs s t)"
    by (simp add: account_inv_def)
  from a b c d e f show ?thesis by blast
qed

theorem append_atomic_witness:
  "threadpool_ctor 0 2 2 True (\<lambda>i. True) (\<lambda>i. True) = ([0, 1], Inr (example_pool 2 2 [0, 1])) \<and>
   2 \<notin> set [0, 1 :: nat] \<and>
   events_of 2 (history (exec (init_system (example_pool 2 2 [0, 1]) [0, 1]) (take 16 example_run))) =
     [EvCall (Some 10), EvLock, EvPush (Some 10), EvUnlock, EvPost] \<and>
   follow append_protocol Not_appending
     (events_of 2 (history (exec (init_system (example_pool 2 2 [0, 1]) [0, 1])
        (take 16 example_run)))) = Some Posted \<and>
   pcs (exec (init_system (example_pool 1 1 [0]) [0])
          (append_alone 1 (Some 10) @ append_alone 1 (Some 20))) 1 = Idle \<and>
   m_queuelocker (pool (exec (init_system (example_pool 1 1 [0]) [0])
          (append_alone 1 (Some 10) @ append_alone 1 (Some 20)))) = None \<and>
   queue_exceeds (pool (exec (init_system (example_pool 1 1 [0]) [0])
          (append_alone 1 (Some 10) @ append_alone 1 (Some 20)))) \<and>
   m_workqueue (pool (exec (exec (init_system (example_pool 1 1 [0]) [0])
          (append_alone 1 (Some 10) @ append_alone 1 (Some 20))) (append_alone 1 (Some 30)))) =
     [Some 10, Some 20] \<and>
   drop 12 (history (exec (exec (init_system (example_pool 1 1 [0]) [0])
          (append_alone 1 (Some 10) @ append_alone 1 (Some 20))) (append_alone 1 (Some 30)))) =
     [(1, EvCall (Some 30)), (1, EvLock), (1, EvUnlock), (1, EvReturn False)] \<and>
   actor (Step 2 :: nat action) = Some 2 \<and>
   \<not> in_run (pcs (exec (init_system (example_pool 2 2 [0, 1]) [0, 1]) (take 15 example_run)) 2) \<and>
   m_queuelocker (pool (exec (init_system (example_pool 2 2 [0, 1]) [0, 1])
     (take 15 example_run))) = Some 3 \<and>
   added (exec (init_system (example_pool 2 2 [0, 1]) [0, 1]) (take 15 example_run)) (Step 2) =
     [(2, EvPost)] \<and>
   m_queuestat (pool (exec (init_system (example_pool 2 2 [0, 1]) [0, 1]) (take 15 example_run))) = 0 \<and>
   m_queuestat (pool (fire (exec (init_system (example_pool 2 2 [0, 1]) [0, 1])
     (take 15 example_run)) (Step 2))) = 1 \<and>
   m_workqueue (pool (fire (exec (init_system (example_pool 2 2 [0, 1]) [0, 1])
     (take 15 example_run)) (Step 2))) = [Some 10] \<and>
   pcs (exec (init_system (example_pool 2 2 [0, 1]) [0, 1]) (take 17 example_run)) 2 = Idle \<and>
   count_list (events_of 2 (history (exec (init_system (example_pool 2 2 [0, 1]) [0, 1])
     (take 17 example_run)))) (EvReturn True) = 1 \<and>
   posted (own 2 (history (exec (init_system (example_pool 2 2 [0, 1]) [0, 1])
     (take 17 example_run)))) = 1 \<and>
   length (pushed (own 2 (history (exec (init_system (example_pool 2 2 [0, 1]) [0, 1])
     (take 17 example_run))))) = 1"
proof -
  let ?s = "exec (init_system (example_pool 2 2 [0, 1]) [0, 1]) (take 16 example_run)"
  let ?i = "exec (init_system (example_pool 2 2 [0, 1]) [0, 1]) (take 15 example_run)"
  let ?f = "exec (init_system (example_pool 1 1 [0]) [0])
              (append_alone 1 (Some 10) @ append_alone 1 (Some 20))"
  have nw: "2 \<notin> set [0, 1 :: nat]" by simp
  have ev: "events_of 2 (history ?s) = [EvCall (Some 10), EvLock, EvPush (Some 10), EvUnlock, EvPost]"
    by (simp add: example_defs events_of_def)
  have pc: "pcs ?s 2 = A_return True"
    by (simp add: example_defs)
  have idle: "pcs ?f 1 = Idle" and free: "m_queuelocker (pool ?f) = None"
    and full: "queue_exceeds (pool ?f)"
    by (simp_all add: example_defs append_alone_def)
  have q: "m_workqueue (pool ?f) = [Some 10, Some 20]"
    by (simp add: example_defs append_alone_def)
  have h: "length (history ?f) = 12"
    by (simp add: example_defs append_alone_def)
  note inst = append_atomic [OF example_ctor refl, where acts = "take 16 example_run"
      and st = ?f and u = 1 and r = "Some 30" and t = 2]
  from inst nw have "follow append_protocol Not_appending (events_of 2 (history ?s)) =
      Some (append_phase_of (pcs ?s 2))"
    by blast
  then have prot: "follow append_protocol Not_appending (events_of 2 (history ?s)) = Some Posted"
    unfolding pc by simp
  from inst idle free full
  have eq: "exec ?f (append_alone 1 (Some 30)) =
      ?f\<lparr>history := history ?f @ [(1, EvCall (Some 30)), (1, EvLock), (1, EvUnlock),
                                   (1, EvReturn False)]\<rparr>"
    by simp
  have w1: "m_workqueue (pool (exec ?f (append_alone 1 (Some 30)))) = [Some 10, Some 20]"
    unfolding eq using q by simp
  have w2: "drop 12 (history (exec ?f (append_alone 1 (Some 30)))) =
     [(1, EvCall (Some 30)), (1, EvLock), (1, EvUnlock), (1, EvReturn False)]"
    unfolding eq using h by simp
  have ac: "actor (Step 2 :: nat action) = Some 2" by simp
  have ipc: "pcs ?i 2 = A_post" by (simp add: example_defs)
  then have nr: "\<not> in_run (pcs ?i 2)" by simp
  have il: "m_queuelocker (pool ?i) = Some 3" by (simp add: example_defs)
  have ad: "added ?i (Step 2) = [(2, EvPost)]"
    by (simp add: added_def example_defs)
  have i0: "m_queuestat (pool ?i) = 0" and iq: "m_workqueue (pool ?i) = [Some 10]"
    by (simp_all add: example_defs)
  from append_atomic [OF example_ctor refl, where st = ?i and u = 2 and a = "Step 2"] ac nr
  have "m_workqueue (pool (fire ?i (Step 2))) = m_workqueue (pool ?i) @ pushed (added ?i (Step 2))"
    and "m_queuestat (pool (fire ?i (Step 2))) = m_queuestat (pool ?i) + posted (added ?i (Step 2))"
    by blast+
  then have w3: "m_queuestat (pool (fire ?i (Step 2))) = 1"
    and w4: "m_workqueue (pool (fire ?i (Step 2))) = [Some 10]"
    unfolding ad i0 iq by simp_all
  let ?d = "exec (init_system (example_pool 2 2 [0, 1]) [0, 1]) (take 17 example_run)"
  have dpc: "pcs ?d 2 = Idle" by (simp add: example_defs)
  have dev: "events_of 2 (history ?d) =
      [EvCall (Some 10), EvLock, EvPush (Some 10), EvUnlock, EvPost, EvReturn True]"
    by (simp add: example_defs events_of_def)
  have dc: "count_list (events_of 2 (history ?d)) (EvReturn True) = 1"
    unfolding dev by simp
  from append_atomic [OF example_ctor refl, where acts = "take 17 example_run" and t = 2]
  have "posted (own 2 (history ?d)) =
           count_list (events_of 2 (history ?d)) (EvReturn True) + posting (pcs ?d 2)"
    and "length (pushed (own 2 (history ?d))) =
           count_list (events_of 2 (history ?d)) (EvReturn True) + pushing (pcs ?d 2)"
    by blast+
  then have w5: "posted (own 2 (history ?d)) = 1"
    and w6: "length (pushed (own 2 (history ?d))) = 1"
    unfolding dc dpc by simp_all
  from example_ctor nw ev prot idle free full w1 w2 ac nr il ad i0 w3 w4 dpc dc w5 w6
  show ?thesis by blast
qed

subsection \<open>A pool nobody appends to\<close>

lemma asleep_fire:
  assumes "no_wake a" and "no_appender s" and "m_queuestat (pool s) = 0"
  shows "no_appender (fire s a) \<and> m_queuestat (pool (fire s a)) = 0 \<and>
         (pcs s t = R_wait \<longrightarrow> pcs (fire s a) t = R_wait)"
proof (cases a)
  case (Step u)
  from assms(2) have u: "in_run (pcs s u) \<or> pcs s u = Idle" by (simp add: no_appender_def)
  have 1: "m_queuestat (pool (fire s (Step u))) = 0"
    using u assms(3) by (cases "pcs s u") (simp_all split: list.splits)
  have 2: "in_run (pcs (fire s (Step u)) v) \<or> pcs (fire s (Step u)) v = Idle" for v
  proof (cases "v = u")
    case True
    show ?thesis unfolding True using u by (cases "pcs s u") (simp_all split: list.splits)
  next
    case False
    from assms(2) have "in_run (pcs s v) \<or> pcs s v = Idle" by (simp add: no_appender_def)
    with False show ?thesis using fire_other(1) [of "Step u" v s] by simp
  qed
  have 3: "pcs s t = R_wait \<longrightarrow> pcs (fire s (Step u)) t = R_wait"
    using assms(3) by (cases "t = u") (simp_all split: option.splits)
  from 1 2 3 show ?thesis unfolding Step no_appender_def by blast
next
  case Destroy
  with assms show ?thesis by (simp add: no_appender_def threadpool_dtor_def)
next
  case (Throw u)
  show ?thesis
  proof (cases "pcs s u" rule: throws_cases)
    case (at r)
    show ?thesis using assms(2,3) at unfolding Throw fire_throw_at [OF at]
      by (auto simp: no_appender_def)
  next
    case idle
    show ?thesis using assms(2,3) unfolding Throw fire_throw_idle [OF idle] by simp
  qed
qed (use assms in simp_all)

lemma asleep_exec:
  assumes "list_all no_wake acts" and "no_appender s" and "m_queuestat (pool s) = 0"
    and "pcs s t = R_wait"
  shows "pcs (exec s acts) t = R_wait \<and> m_queuestat (pool (exec s acts)) = 0"
  using assms
proof (induction acts arbitrary: s)
  case Nil
  then show ?case by simp
next
  case (Cons a acts)
  from Cons.prems have a: "no_wake a" and rest: "list_all no_wake acts" by simp_all
  from asleep_fire [OF a Cons.prems(2) Cons.prems(3), of t] Cons.prems(4)
  have "no_appender (fire s a)" "m_queuestat (pool (fire s a)) = 0" "pcs (fire s a) t = R_wait"
    by blast+
  with Cons.IH [OF rest] show ?case by simp
qed

lemma stop_flag_only_at_top:
  assumes "c \<noteq> R_while"
  shows "thread_step u (q\<lparr>m_stop := b\<rparr>) c =
           map_option (\<lambda>(q', c', es). (q'\<lparr>m_stop := b\<rparr>, c', es)) (thread_step u q c)"
  using assms by (cases c) (simp_all add: queue_exceeds_def split: list.splits)

lemma only_post_raises:
  assumes "thread_step u q c = Some (q', c', es)" and "m_queuestat q < m_queuestat q'"
  shows "c = A_post"
  using assms by (cases c) (auto split: if_splits list.splits)


lemma stop_stays_fire: "m_stop (pool s) \<Longrightarrow> m_stop (pool (fire s a))"
proof (cases a)
  case (Step u)
  assume "m_stop (pool s)"
  then show ?thesis unfolding Step by (cases "pcs s u") (simp_all split: list.splits)
next
  case (Throw u)
  assume "m_stop (pool s)"
  then show ?thesis unfolding Throw by (simp only: fire_throw_pool)
qed (simp_all add: threadpool_dtor_def)

lemma stop_stays_exec: "m_stop (pool s) \<Longrightarrow> m_stop (pool (exec s acts))"
  by (induction acts arbitrary: s) (simp_all add: stop_stays_fire)

subsection \<open>Teardown\<close>

text \<open>
  Claim C5: the destructor sets the stop flag and wakes nobody; the loop of \<^verbatim>\<open>run\<close> reads
  the flag only at its top; so a worker blocked at the semaphore stays blocked.
  The destructor leaves the semaphore, the lock and the queue as they are and sets
  \<^verbatim>\<open>m_stop\<close>.  A statement other than the test of line 167 does the same whatever the
  flag is.  The one statement that raises the semaphore is the post of \<^verbatim>\<open>append\<close>
  (line 138).  A worker at \<^verbatim>\<open>m_queuestat.wait()\<close> with the count at 0 cannot move after
  the destructor has run.  And from a state in which no thread is inside \<^verbatim>\<open>append\<close>, the
  count is 0 and a worker is at the wait, the destructor followed by any steps of any
  threads, with no new call of \<^verbatim>\<open>append\<close> and no spurious wake, leaves that worker at the
  wait, the flag set.
\<close>

theorem teardown_wakes_nobody:
  "m_queuestat (threadpool_dtor q) = m_queuestat q \<and>
   m_queuelocker (threadpool_dtor q) = m_queuelocker q \<and>
   m_workqueue (threadpool_dtor q) = m_workqueue q \<and>
   m_stop (threadpool_dtor q) \<and>
   (c \<noteq> R_while \<longrightarrow>
      thread_step u (q\<lparr>m_stop := b\<rparr>) c =
        map_option (\<lambda>(q', c', es). (q'\<lparr>m_stop := b\<rparr>, c', es)) (thread_step u q c)) \<and>
   (thread_step u q c = Some (q', c', es) \<and> m_queuestat q < m_queuestat q' \<longrightarrow> c = A_post) \<and>
   (m_queuestat q = 0 \<longrightarrow> thread_step u (threadpool_dtor q) R_wait = None) \<and>
   (list_all no_wake acts \<and> no_appender s \<and> m_queuestat (pool s) = 0 \<and> pcs s t = R_wait \<longrightarrow>
      pcs (exec s (Destroy # acts)) t = R_wait \<and> m_stop (pool (exec s (Destroy # acts))))"
proof -
  have a: "m_queuestat (threadpool_dtor q) = m_queuestat q \<and>
      m_queuelocker (threadpool_dtor q) = m_queuelocker q \<and>
      m_workqueue (threadpool_dtor q) = m_workqueue q \<and> m_stop (threadpool_dtor q)"
    by (simp add: threadpool_dtor_def)
  have b: "c \<noteq> R_while \<longrightarrow>
      thread_step u (q\<lparr>m_stop := b\<rparr>) c =
        map_option (\<lambda>(q', c', es). (q'\<lparr>m_stop := b\<rparr>, c', es)) (thread_step u q c)"
    using stop_flag_only_at_top [where c = c and u = u and q = q and b = b] by blast
  have c: "thread_step u q c = Some (q', c', es) \<and> m_queuestat q < m_queuestat q' \<longrightarrow> c = A_post"
    using only_post_raises [where u = u and q = q and c = c and q' = q' and c' = c' and es = es] by blast
  have d: "m_queuestat q = 0 \<longrightarrow> thread_step u (threadpool_dtor q) R_wait = None"
    by (simp add: threadpool_dtor_def)
  have e: "list_all no_wake acts \<and> no_appender s \<and> m_queuestat (pool s) = 0 \<and> pcs s t = R_wait \<longrightarrow>
      pcs (exec s (Destroy # acts)) t = R_wait \<and> m_stop (pool (exec s (Destroy # acts)))"
  proof
    assume h: "list_all no_wake acts \<and> no_appender s \<and> m_queuestat (pool s) = 0 \<and> pcs s t = R_wait"
    then have "list_all no_wake (Destroy # acts)" by simp
    with h have "pcs (exec s (Destroy # acts)) t = R_wait"
      using asleep_exec [of "Destroy # acts" s t] by blast
    moreover have "m_stop (pool (fire s Destroy))" by (simp add: threadpool_dtor_def)
    then have "m_stop (pool (exec s (Destroy # acts)))"
      using stop_stays_exec [of "fire s Destroy" acts] by simp
    ultimately show "pcs (exec s (Destroy # acts)) t = R_wait \<and> m_stop (pool (exec s (Destroy # acts)))"
      by blast
  qed
  from a b c d e show ?thesis by blast
qed

theorem teardown_wakes_nobody_witness:
  "(R_wait :: nat pc) \<noteq> R_while \<and>
   thread_step 2 (example_pool 2 2 [0, 1]) A_post =
     Some ((example_pool 2 2 [0, 1])\<lparr>m_queuestat := 1\<rparr>, A_return True, [EvPost]) \<and>
   m_queuestat (example_pool 2 2 [0, 1]) < m_queuestat ((example_pool 2 2 [0, 1])\<lparr>m_queuestat := 1\<rparr>) \<and>
   m_queuestat (example_pool 2 2 [0, 1]) = 0 \<and>
   thread_step 0 (threadpool_dtor (example_pool 2 2 [0, 1])) R_wait = None \<and>
   list_all no_wake [Step 0, Step 1, Step 0 :: nat action] \<and>
   no_appender (exec (init_system (example_pool 2 2 [0, 1]) [0, 1]) (take 2 example_run)) \<and>
   m_queuestat (pool (exec (init_system (example_pool 2 2 [0, 1]) [0, 1]) (take 2 example_run))) = 0 \<and>
   pcs (exec (init_system (example_pool 2 2 [0, 1]) [0, 1]) (take 2 example_run)) 0 = R_wait \<and>
   pcs (exec (exec (init_system (example_pool 2 2 [0, 1]) [0, 1]) (take 2 example_run))
          (Destroy # [Step 0, Step 1, Step 0])) 0 = R_wait \<and>
   m_stop (pool (exec (exec (init_system (example_pool 2 2 [0, 1]) [0, 1]) (take 2 example_run))
          (Destroy # [Step 0, Step 1, Step 0])))"
proof -
  let ?s = "exec (init_system (example_pool 2 2 [0, 1]) [0, 1]) (take 2 example_run)"
  let ?q = "example_pool 2 2 [0, 1]"
  have 1: "(R_wait :: nat pc) \<noteq> R_while" by simp
  have 2: "thread_step 2 ?q A_post = Some (?q\<lparr>m_queuestat := 1\<rparr>, A_return True, [EvPost])"
    by (simp add: example_defs)
  have 3: "m_queuestat ?q < m_queuestat (?q\<lparr>m_queuestat := 1\<rparr>)"
    by (simp add: example_defs)
  have 4: "m_queuestat ?q = 0" by (simp add: example_defs)
  have 5: "list_all no_wake [Step 0, Step 1, Step 0 :: nat action]" by simp
  have pcs: "pcs ?s = (\<lambda>t. if t = 0 \<or> t = 1 then R_wait else Idle)"
    by (rule ext) (simp add: example_defs)
  have 6: "no_appender ?s" unfolding no_appender_def pcs by simp
  have 7: "m_queuestat (pool ?s) = 0" by (simp add: example_defs)
  have 8: "pcs ?s 0 = R_wait" unfolding pcs by simp
  note inst = teardown_wakes_nobody [where q = ?q and u = 0 and s = ?s and t = 0
      and acts = "[Step 0, Step 1, Step 0]"]
  from inst 4 have 9: "thread_step 0 (threadpool_dtor ?q) R_wait = None" by blast
  from inst 5 6 7 8
  have 10: "pcs (exec ?s (Destroy # [Step 0, Step 1, Step 0])) 0 = R_wait \<and>
            m_stop (pool (exec ?s (Destroy # [Step 0, Step 1, Step 0])))"
    by blast
  from 1 2 3 4 5 6 7 8 9 10 show ?thesis by blast
qed

subsection \<open>The loop of the constructor\<close>

lemma spawn_workers_all:
  assumes "\<forall>j. i \<le> j \<and> j < n \<longrightarrow> create_ok j \<and> detach_ok j"
  shows "spawn_workers create_ok detach_ok n i = (map nat [i..n - 1], True)"
  using assms
proof (induction create_ok detach_ok n i rule: spawn_workers.induct)
  case (1 create_ok detach_ok n i)
  show ?case
  proof (cases "i < n")
    case True
    with "1.prems" have ok: "create_ok i" "detach_ok i" by simp_all
    from "1.prems" have "\<forall>j. i + 1 \<le> j \<and> j < n \<longrightarrow> create_ok j \<and> detach_ok j" by simp
    with "1.IH" True ok
    have "spawn_workers create_ok detach_ok n (i + 1) = (map nat [i + 1..n - 1], True)"
      by simp
    moreover have "[i..n - 1] = i # [i + 1..n - 1]"
      using True by (simp add: upto_rec1)
    ultimately show ?thesis
      using True ok by (subst spawn_workers.simps) simp
  next
    case False
    then show ?thesis by (subst spawn_workers.simps) simp
  qed
qed

lemma spawn_workers_fails:
  assumes "i \<le> k" and "k < n" and "\<not> (create_ok k \<and> detach_ok k)"
  shows "snd (spawn_workers create_ok detach_ok n i) = False"
  using assms
proof (induction create_ok detach_ok n i rule: spawn_workers.induct)
  case (1 create_ok detach_ok n i)
  from "1.prems" have lt: "i < n" by simp
  show ?case
  proof (cases "create_ok i \<and> detach_ok i")
    case False
    then show ?thesis using lt by (subst spawn_workers.simps) auto
  next
    case True
    with "1.prems" have "i \<noteq> k" by auto
    with "1.prems" have "i + 1 \<le> k" by simp
    with "1.IH" lt True "1.prems"
    have "snd (spawn_workers create_ok detach_ok n (i + 1)) = False" by simp
    then show ?thesis
      using lt True by (subst spawn_workers.simps) (auto split: prod.splits)
  qed
qed

lemma spawn_workers_succeeds:
  assumes "spawn_workers create_ok detach_ok n i = (ws, True)"
  shows "\<forall>j. i \<le> j \<and> j < n \<longrightarrow> create_ok j \<and> detach_ok j"
proof (intro allI impI)
  fix j assume j: "i \<le> j \<and> j < n"
  show "create_ok j \<and> detach_ok j"
  proof (rule ccontr)
    assume "\<not> (create_ok j \<and> detach_ok j)"
    with j have "snd (spawn_workers create_ok detach_ok n i) = False"
      using spawn_workers_fails [of i j n create_ok detach_ok] by simp
    with assms show False by simp
  qed
qed

subsection \<open>The constructor\<close>

text \<open>
  Claim C10 says that the constructor throws on \<^verbatim>\<open>thread_number <= 0\<close> or
  \<^verbatim>\<open>max_requests <= 0\<close> and on a failed thread creation or detachment, spawns exactly
  \<^verbatim>\<open>thread_number\<close> detached workers on success, and that no partially constructed pool
  with a running \<^verbatim>\<open>run\<close> is ever observable.  The last part fails: with
  \<^verbatim>\<open>thread_number = 2\<close> and \<^verbatim>\<open>pthread_create\<close> failing at index 1, the constructor
  throws after thread 0 has been created, and nothing stops that thread.
\<close>

theorem ctor_throws_with_worker_running:
  "(threadpool_ctor 0 2 10 True (\<lambda>i. i \<noteq> 1) (\<lambda>i. True) :: tid list \<times> (exn + nat threadpool)) =
     ([0], Inl Std_exception)"
  by (simp add: threadpool_ctor_def spawn_workers.simps)

text \<open>
  Claim C10, amended: the constructor throws, with no thread created, when
  \<^verbatim>\<open>thread_number <= 0\<close> or \<^verbatim>\<open>max_requests <= 0\<close> (and when the allocation of the thread
  array fails); it throws when \<^verbatim>\<open>pthread_create\<close> or \<^verbatim>\<open>pthread_detach\<close> fails at some
  index below \<^verbatim>\<open>thread_number\<close>; and when it returns a pool, every creation and
  detachment has succeeded, the threads created are exactly the \<^verbatim>\<open>thread_number\<close>
  threads \<open>0, \<dots>, thread_number - 1\<close>, the pool has the members of the initialiser list
  with these threads, and exactly these threads are at the top of the loop of \<^verbatim>\<open>run\<close>.
\<close>

theorem ctor_outcomes:
  "(n \<le> 0 \<or> m \<le> 0 \<longrightarrow>
      threadpool_ctor connPool n m alloc_ok create_ok detach_ok = ([], Inl Std_exception)) \<and>
   (0 < n \<and> 0 < m \<and> \<not> alloc_ok \<longrightarrow>
      threadpool_ctor connPool n m alloc_ok create_ok detach_ok = ([], Inl Bad_alloc)) \<and>
   (0 < n \<and> 0 < m \<and> alloc_ok \<and> 0 \<le> k \<and> k < n \<and> \<not> (create_ok k \<and> detach_ok k) \<longrightarrow>
      snd (threadpool_ctor connPool n m alloc_ok create_ok detach_ok) = Inl Std_exception) \<and>
   (threadpool_ctor connPool n m alloc_ok create_ok detach_ok = (ws, Inr p) \<longrightarrow>
      0 < n \<and> 0 < m \<and> (\<forall>i. 0 \<le> i \<and> i < n \<longrightarrow> create_ok i \<and> detach_ok i) \<and>
      ws = map nat [0..n - 1] \<and> int (length ws) = n \<and>
      p = (member_init connPool n m)\<lparr>m_threads := Some ws\<rparr> \<and>
      pcs (init_system p ws) t = (if int t < n then R_while else Idle))"
proof -
  have a: "n \<le> 0 \<or> m \<le> 0 \<longrightarrow>
      threadpool_ctor connPool n m alloc_ok create_ok detach_ok = ([], Inl Std_exception)"
    by (simp add: threadpool_ctor_def)
  have b: "0 < n \<and> 0 < m \<and> \<not> alloc_ok \<longrightarrow>
      threadpool_ctor connPool n m alloc_ok create_ok detach_ok = ([], Inl Bad_alloc)"
    by (simp add: threadpool_ctor_def)
  have c: "0 < n \<and> 0 < m \<and> alloc_ok \<and> 0 \<le> k \<and> k < n \<and> \<not> (create_ok k \<and> detach_ok k) \<longrightarrow>
      snd (threadpool_ctor connPool n m alloc_ok create_ok detach_ok) = Inl Std_exception"
  proof
    assume h: "0 < n \<and> 0 < m \<and> alloc_ok \<and> 0 \<le> k \<and> k < n \<and> \<not> (create_ok k \<and> detach_ok k)"
    then have "snd (spawn_workers create_ok detach_ok n 0) = False"
      using spawn_workers_fails [of 0 k n create_ok detach_ok] by blast
    then obtain ws' where "spawn_workers create_ok detach_ok n 0 = (ws', False)"
      by (cases "spawn_workers create_ok detach_ok n 0") simp
    with h show "snd (threadpool_ctor connPool n m alloc_ok create_ok detach_ok) = Inl Std_exception"
      by (simp add: threadpool_ctor_def)
  qed
  have d: "threadpool_ctor connPool n m alloc_ok create_ok detach_ok = (ws, Inr p) \<longrightarrow>
      0 < n \<and> 0 < m \<and> (\<forall>i. 0 \<le> i \<and> i < n \<longrightarrow> create_ok i \<and> detach_ok i) \<and>
      ws = map nat [0..n - 1] \<and> int (length ws) = n \<and>
      p = (member_init connPool n m)\<lparr>m_threads := Some ws\<rparr> \<and>
      pcs (init_system p ws) t = (if int t < n then R_while else Idle)"
  proof
    assume h: "threadpool_ctor connPool n m alloc_ok create_ok detach_ok = (ws, Inr p)"
    then have pos: "0 < n" "0 < m"
      and sp: "spawn_workers create_ok detach_ok n 0 = (ws, True)"
      by (auto simp: threadpool_ctor_def split: if_splits prod.splits bool.splits)
    from sp have ok: "\<forall>i. 0 \<le> i \<and> i < n \<longrightarrow> create_ok i \<and> detach_ok i"
      by (rule spawn_workers_succeeds)
    then have "spawn_workers create_ok detach_ok n 0 = (map nat [0..n - 1], True)"
      by (rule spawn_workers_all)
    with sp have ws: "ws = map nat [0..n - 1]" by simp
    then have len: "int (length ws) = n" using pos by simp
    have set: "t \<in> set ws \<longleftrightarrow> int t < n"
    proof
      assume "t \<in> set ws"
      then obtain j where "0 \<le> j" "j \<le> n - 1" "t = nat j" unfolding ws by auto
      then show "int t < n" by simp
    next
      assume "int t < n"
      then have "int t \<in> set [0..n - 1]" by simp
      then have "nat (int t) \<in> set ws" unfolding ws by (simp only: set_map imageI)
      then show "t \<in> set ws" by simp
    qed
    have "pcs (init_system p ws) t = (if int t < n then R_while else Idle)"
      by (simp add: init_system_def set)
    with pos ok ws len ctor_pool [OF h]
    show "0 < n \<and> 0 < m \<and> (\<forall>i. 0 \<le> i \<and> i < n \<longrightarrow> create_ok i \<and> detach_ok i) \<and>
      ws = map nat [0..n - 1] \<and> int (length ws) = n \<and>
      p = (member_init connPool n m)\<lparr>m_threads := Some ws\<rparr> \<and>
      pcs (init_system p ws) t = (if int t < n then R_while else Idle)"
      by blast
  qed
  from a b c d show ?thesis by blast
qed

theorem ctor_outcomes_witness:
  "(threadpool_ctor 0 0 10 True (\<lambda>i. True) (\<lambda>i. True) :: tid list \<times> (exn + nat threadpool)) =
     ([], Inl Std_exception) \<and>
   (threadpool_ctor 0 2 2 False (\<lambda>i. True) (\<lambda>i. True) :: tid list \<times> (exn + nat threadpool)) =
     ([], Inl Bad_alloc) \<and>
   snd (threadpool_ctor 0 2 2 True (\<lambda>i. True) (\<lambda>i. i \<noteq> 1) :: tid list \<times> (exn + nat threadpool)) =
     Inl Std_exception \<and>
   threadpool_ctor 0 2 2 True (\<lambda>i. True) (\<lambda>i. True) = ([0, 1], Inr (example_pool 2 2 [0, 1])) \<and>
   int (length [0, 1 :: nat]) = 2 \<and>
   pcs (init_system (example_pool 2 2 [0, 1]) [0, 1]) 1 = R_while \<and>
   pcs (init_system (example_pool 2 2 [0, 1]) [0, 1]) 2 = Idle"
proof -
  have h1: "(0::int) \<le> 0 \<or> (10::int) \<le> 0" by simp
  have h2: "(0::int) < 2 \<and> (0::int) < 2 \<and> \<not> False" by simp
  have h3: "(0::int) < 2 \<and> (0::int) < 2 \<and> True \<and> (0::int) \<le> 1 \<and> (1::int) < 2 \<and>
            \<not> ((\<lambda>i::int. True) 1 \<and> (\<lambda>i::int. i \<noteq> 1) 1)"
    by simp
  have 1: "(threadpool_ctor 0 0 10 True (\<lambda>i. True) (\<lambda>i. True) :: tid list \<times> (exn + nat threadpool)) =
     ([], Inl Std_exception)"
    using h1 ctor_outcomes [where n = 0 and m = 10 and connPool = 0 and alloc_ok = True
        and create_ok = "\<lambda>i. True" and detach_ok = "\<lambda>i. True"]
    by blast
  have 2: "(threadpool_ctor 0 2 2 False (\<lambda>i. True) (\<lambda>i. True) :: tid list \<times> (exn + nat threadpool)) =
     ([], Inl Bad_alloc)"
    using h2 ctor_outcomes [where n = 2 and m = 2 and connPool = 0 and alloc_ok = False
        and create_ok = "\<lambda>i. True" and detach_ok = "\<lambda>i. True"]
    by blast
  have 3: "snd (threadpool_ctor 0 2 2 True (\<lambda>i. True) (\<lambda>i. i \<noteq> 1) :: tid list \<times> (exn + nat threadpool)) =
     Inl Std_exception"
    using h3 ctor_outcomes [where n = 2 and m = 2 and connPool = 0 and alloc_ok = True
        and create_ok = "\<lambda>i. True" and detach_ok = "\<lambda>i. i \<noteq> 1" and k = 1]
    by blast
  from ctor_outcomes [where n = 2 and m = 2 and connPool = 0 and alloc_ok = True
        and create_ok = "\<lambda>i. True" and detach_ok = "\<lambda>i. True" and ws = "[0, 1]"
        and p = "example_pool 2 2 [0, 1]"] example_ctor
  have 4: "int (length [0, 1 :: nat]) = 2"
    and 5: "pcs (init_system (example_pool 2 2 [0, 1]) [0, 1]) t =
             (if int t < 2 then R_while else Idle)" for t
    by blast+
  from 5 [of 1] 5 [of 2]
  have "pcs (init_system (example_pool 2 2 [0, 1]) [0, 1]) 1 = R_while"
    and "pcs (init_system (example_pool 2 2 [0, 1]) [0, 1]) 2 = Idle"
    by simp_all
  with 1 2 3 4 example_ctor show ?thesis by blast
qed

section \<open>Properties of the connection\<close>

subsection \<open>Parsing a buffer that has grown\<close>

lemma scan_decided:
  assumes "scan xs = (st, k)" and "st \<noteq> LINE_OPEN"
  shows "scan (xs @ ys) = (st, k)"
  using assms
proof (induction xs arbitrary: k)
  case Nil
  then show ?case by simp
next
  case (Cons ch rest)
  show ?case
  proof (cases "ch = CR \<or> ch = LF")
    case True
    with Cons.prems show ?thesis
      by (cases rest) (auto split: if_splits)
  next
    case False
    obtain st' j where r: "scan rest = (st', j)" by (cases "scan rest")
    with Cons.prems False have "st' = st" "k = Suc j" by simp_all
    with Cons.IH [of j] r Cons.prems(2) have "scan (rest @ ys) = (st, j)" by simp
    with False \<open>k = Suc j\<close> show ?thesis by simp
  qed
qed

lemma scan_open:
  assumes "scan xs = (LINE_OPEN, k)"
  shows "scan (xs @ ys) = (case scan (drop k xs @ ys) of (st, j) \<Rightarrow> (st, k + j))"
  using assms
proof (induction xs arbitrary: k)
  case Nil
  then show ?case by simp
next
  case (Cons ch rest)
  show ?case
  proof (cases "ch = CR \<or> ch = LF")
    case True
    with Cons.prems show ?thesis
      by (cases rest) (auto split: if_splits)
  next
    case False
    obtain st' j where r: "scan rest = (st', j)" by (cases "scan rest")
    with Cons.prems False have "st' = LINE_OPEN" "k = Suc j" by simp_all
    with Cons.IH [of j] r
    have "scan (rest @ ys) = (case scan (drop j rest @ ys) of (st, i) \<Rightarrow> (st, j + i))"
      by simp
    with False \<open>k = Suc j\<close> show ?thesis by (simp split: prod.splits)
  qed
qed

lemma scan_Nil_status: "scan xs = (st, k) \<Longrightarrow> st \<noteq> LINE_OPEN \<Longrightarrow> xs \<noteq> []"
  by auto

lemma parse_line_eq:
  "scan (drop (m_checked_idx c) (m_read_buf c)) = (st, k) \<Longrightarrow>
   parse_line c =
     (st, if st = LINE_OK
          then c\<lparr>m_read_buf := end_line (m_read_buf c) (m_checked_idx c + k),
                 m_checked_idx := m_checked_idx c + k\<rparr>
          else c\<lparr>m_checked_idx := m_checked_idx c + k\<rparr>)"
  by (simp add: parse_line_def)

lemma parse_line_scan:
  assumes "parse_line c = (st, c')"
  obtains k where "scan (drop (m_checked_idx c) (m_read_buf c)) = (st, k)"
    and "c' = (if st = LINE_OK
               then c\<lparr>m_read_buf := end_line (m_read_buf c) (m_checked_idx c + k),
                      m_checked_idx := m_checked_idx c + k\<rparr>
               else c\<lparr>m_checked_idx := m_checked_idx c + k\<rparr>)"
  using assms by (auto simp: parse_line_def split: prod.splits)

lemma end_line_append:
  assumes "2 \<le> i" and "i \<le> length xs"
  shows "end_line (xs @ ys) i = end_line xs i @ ys"
  using assms by (simp add: end_line_def list_update_append1)

lemma grown_simps [simp]:
  "m_read_buf (grown c y) = m_read_buf c @ y"
  "m_checked_idx (grown c y) = m_checked_idx c"
  "m_start_line (grown c y) = m_start_line c"
  "m_check_state (grown c y) = m_check_state c"
  "m_content_length (grown c y) = m_content_length c"
  "m_method (grown c y) = m_method c"
  "m_url (grown c y) = m_url c"
  "m_string (grown c y) = m_string c"
  by (simp_all add: grown_def)

lemma grown_grown: "grown (grown c x) y = grown c (x @ y)"
  by (simp add: grown_def)

lemma grown_Nil [simp]: "grown c [] = c"
  by (simp add: grown_def)

lemma parse_line_decided:
  assumes "parse_line c = (st, c')" and "st \<noteq> LINE_OPEN"
  shows "parse_line (grown c y) = (st, grown c' y)"
proof -
  from assms(1) obtain k where k: "scan (drop (m_checked_idx c) (m_read_buf c)) = (st, k)"
    and c': "c' = (if st = LINE_OK
               then c\<lparr>m_read_buf := end_line (m_read_buf c) (m_checked_idx c + k),
                      m_checked_idx := m_checked_idx c + k\<rparr>
               else c\<lparr>m_checked_idx := m_checked_idx c + k\<rparr>)"
    by (rule parse_line_scan)
  from scan_Nil_status [OF k assms(2)] have lt: "m_checked_idx c < length (m_read_buf c)" by simp
  then have d: "drop (m_checked_idx (grown c y)) (m_read_buf (grown c y)) =
                drop (m_checked_idx c) (m_read_buf c) @ y"
    by simp
  have s: "scan (drop (m_checked_idx (grown c y)) (m_read_buf (grown c y))) = (st, k)"
    unfolding d using k assms(2) by (rule scan_decided)
  show ?thesis
  proof (cases "st = LINE_OK")
    case True
    from scan_ok [OF k [unfolded True]] have 2: "2 \<le> m_checked_idx c + k" by simp
    from scan_bound [OF k] lt have le: "m_checked_idx c + k \<le> length (m_read_buf c)" by simp
    from end_line_append [OF 2 le, of y] True c' show ?thesis
      unfolding parse_line_eq [OF s] by (simp add: grown_def)
  next
    case False
    with c' show ?thesis unfolding parse_line_eq [OF s] by (simp add: grown_def)
  qed
qed

lemma parse_line_open:
  assumes "parse_line c = (LINE_OPEN, c')"
  shows "parse_line (grown c y) = parse_line (grown c' y)"
proof (cases "m_checked_idx c \<le> length (m_read_buf c)")
  case False
  then have "c' = c" using assms by (simp add: parse_line_def)
  then show ?thesis by simp
next
  case True
  from assms obtain k where k: "scan (drop (m_checked_idx c) (m_read_buf c)) = (LINE_OPEN, k)"
    and c': "c' = c\<lparr>m_checked_idx := m_checked_idx c + k\<rparr>"
    by (rule parse_line_scan) simp
  from scan_bound [OF k] True have le: "m_checked_idx c + k \<le> length (m_read_buf c)" by simp
  have 1: "drop (m_checked_idx (grown c y)) (m_read_buf (grown c y)) =
           drop (m_checked_idx c) (m_read_buf c) @ y"
    using True by (simp add: grown_def)
  have 2: "drop (m_checked_idx (grown c' y)) (m_read_buf (grown c' y)) =
           drop k (drop (m_checked_idx c) (m_read_buf c)) @ y"
    unfolding c' using le by (simp add: grown_def add.commute)
  obtain st j where s2: "scan (drop k (drop (m_checked_idx c) (m_read_buf c)) @ y) = (st, j)"
    by (cases "scan (drop k (drop (m_checked_idx c) (m_read_buf c)) @ y)")
  have s1: "scan (drop (m_checked_idx c) (m_read_buf c) @ y) = (st, k + j)"
    using scan_open [OF k, of y] s2 by simp
  have l: "scan (drop (m_checked_idx (grown c y)) (m_read_buf (grown c y))) = (st, k + j)"
    by (simp only: 1 s1)
  have r: "scan (drop (m_checked_idx (grown c' y)) (m_read_buf (grown c' y))) = (st, j)"
    by (simp only: 2 s2)
  show ?thesis unfolding parse_line_eq [OF l] parse_line_eq [OF r]
    by (simp add: c' grown_def add.assoc)
qed

text \<open>
  The invariant of the indices the spec gives, as far as the parser needs it: the line
  being parsed starts at or before the next byte to parse.
\<close>

lemma parse_line_nul:
  assumes "parse_line c = (LINE_OK, l)" and "m_start_line c \<le> m_checked_idx c"
  shows "NUL \<in> set (drop (m_start_line l) (m_read_buf l))"
proof -
  from assms(1) obtain k where k: "scan (drop (m_checked_idx c) (m_read_buf c)) = (LINE_OK, k)"
    and l: "l = c\<lparr>m_read_buf := end_line (m_read_buf c) (m_checked_idx c + k),
                   m_checked_idx := m_checked_idx c + k\<rparr>"
    by (rule parse_line_scan) simp
  define i where "i = m_checked_idx c + k - 1"
  define b where "b = end_line (m_read_buf c) (m_checked_idx c + k)"
  from scan_ok [OF k] have k2: "2 \<le> k" .
  from scan_bound [OF k] k2 have lt: "i < length (m_read_buf c)" by (simp add: i_def)
  from k2 assms(2) have ge: "m_start_line c \<le> i" by (simp add: i_def)
  have "b ! i = NUL"
    using lt by (simp add: b_def end_line_def i_def)
  moreover have "drop (m_start_line c) b ! (i - m_start_line c) = b ! i"
    using lt ge by (simp add: b_def)
  moreover have "i - m_start_line c < length (drop (m_start_line c) b)"
    using lt ge by (simp add: b_def)
  ultimately have "NUL \<in> set (drop (m_start_line c) b)" by (metis nth_mem)
  then show ?thesis unfolding l b_def by simp
qed

lemma parse_request_line_extend:
  "parse_request_line cfg text (grown d y) =
     (case parse_request_line cfg text d of (ret, e) \<Rightarrow> (ret, grown e y))"
  by (simp add: parse_request_line_def grown_def split: option.splits)

lemma parse_headers_extend:
  "parse_headers text (grown d y) =
     (case parse_headers text d of (ret, e) \<Rightarrow> (ret, grown e y))"
  by (simp add: parse_headers_def grown_def split: option.splits)

lemma do_request_extend [simp]: "do_request cfg (grown e y) = do_request cfg e"
  by (simp add: do_request_def)

lemma get_line_extend:
  assumes "NUL \<in> set (drop (m_start_line c) (m_read_buf c))"
  shows "get_line (grown c y) = get_line c"
proof -
  from assms have "m_start_line c \<le> length (m_read_buf c)"
    by (cases "m_start_line c \<le> length (m_read_buf c)") simp_all
  then have "drop (m_start_line c) (m_read_buf c @ y) = drop (m_start_line c) (m_read_buf c) @ y"
    by simp
  moreover from assms
  have "takeWhile (\<lambda>ch. ch \<noteq> NUL) (drop (m_start_line c) (m_read_buf c) @ y) =
        takeWhile (\<lambda>ch. ch \<noteq> NUL) (drop (m_start_line c) (m_read_buf c))"
    by (intro takeWhile_append1 [where x = NUL]) simp_all
  ultimately show ?thesis by (simp add: get_line_def)
qed

lemma handle_line_extend:
  assumes "NUL \<in> set (drop (m_start_line l) (m_read_buf l))"
  shows "handle_line cfg state (grown l y) =
           (case handle_line cfg state l of (x, e) \<Rightarrow> (x, grown e y))"
proof -
  have d: "(grown l y)\<lparr>m_start_line := m_checked_idx (grown l y)\<rparr> =
           grown (l\<lparr>m_start_line := m_checked_idx l\<rparr>) y"
    by (simp add: grown_def)
  show ?thesis
    unfolding handle_line_def Let_def get_line_extend [OF assms] d
    by (simp add: parse_request_line_extend parse_headers_extend split: prod.splits)
qed

lemma process_turn_line:
  assumes "process_turn cfg c = (x, c')" and "m_check_state c \<noteq> CHECK_STATE_CONTENT"
    and "x \<noteq> Some NO_REQUEST" and "m_start_line c \<le> m_checked_idx c"
  shows "process_turn cfg (grown c y) = (x, grown c' y)"
proof -
  obtain st l where pl: "parse_line c = (st, l)" by (cases "parse_line c")
  with assms(1-3) have st: "st \<noteq> LINE_OPEN"
    by (auto simp: process_turn_def)
  note ext = parse_line_decided [OF pl st, of y]
  show ?thesis
  proof (cases st)
    case LINE_OPEN
    with st show ?thesis by simp
  next
    case LINE_BAD
    with assms(1,2) pl have "x = Some BAD_REQUEST" "c' = l"
      by (simp_all add: process_turn_def)
    with assms(2) ext LINE_BAD show ?thesis by (simp add: process_turn_def)
  next
    case LINE_OK
    from parse_line_nul [OF pl [unfolded LINE_OK] assms(4)]
    have "NUL \<in> set (drop (m_start_line l) (m_read_buf l))" .
    note h = handle_line_extend [OF this, of cfg "m_check_state c" y]
    from assms(1,2) pl LINE_OK have "handle_line cfg (m_check_state c) l = (x, c')"
      by (simp add: process_turn_def)
    with h assms(2) ext LINE_OK show ?thesis by (simp add: process_turn_def)
  qed
qed

lemma process_turn_None:
  assumes "process_turn cfg c = (None, c')" and "m_start_line c \<le> m_checked_idx c"
  shows "process_turn cfg (grown c y) = (None, grown c' y)"
proof -
  from assms(1) have "m_check_state c \<noteq> CHECK_STATE_CONTENT"
    by (auto simp: process_turn_def split: prod.splits if_splits)
  with assms show ?thesis by (intro process_turn_line) simp_all
qed

lemma consumed_grown [simp]: "consumed (grown c y) = consumed c"
  by (simp add: consumed_def)

lemma process_turn_decided:
  assumes "process_turn cfg c = (Some ret, c')" and "ret \<noteq> NO_REQUEST"
    and "m_start_line c \<le> m_checked_idx c"
  shows "\<exists>ret' c''. process_turn cfg (grown c y) = (Some ret', c'') \<and> consumed c'' = consumed c'"
proof (cases "m_check_state c = CHECK_STATE_CONTENT")
  case True
  with assms(1,2)
  have le: "int32 (int (m_start_line c) + m_content_length c) \<le> int (length (m_read_buf c))"
    by (auto simp: process_turn_def parse_content_def m_read_idx_def split: if_splits)
  with assms(1) True
  have c': "c' = c\<lparr>m_string := take (nat (m_content_length c)) (drop (m_start_line c) (m_read_buf c))\<rparr>"
    by (auto simp: process_turn_def parse_content_def m_read_idx_def)
  let ?e = "(grown c y)\<lparr>m_string :=
      take (nat (m_content_length c)) (drop (m_start_line c) (m_read_buf c @ y))\<rparr>"
  from le True have "process_turn cfg (grown c y) = (Some (do_request cfg ?e), ?e)"
    by (simp add: process_turn_def parse_content_def m_read_idx_def)
  moreover have "consumed ?e = consumed c'"
    unfolding c' by (simp add: consumed_def)
  ultimately show ?thesis by blast
next
  case False
  from assms have "process_turn cfg (grown c y) = (Some ret, grown c' y)"
    using False by (intro process_turn_line) simp_all
  then show ?thesis by simp
qed

lemma process_turn_resumes:
  assumes "process_turn cfg c = (Some NO_REQUEST, c')" and "resolves cfg"
  shows "process_turn cfg (grown c y) = process_turn cfg (grown c' y)"
proof (cases "m_check_state c = CHECK_STATE_CONTENT")
  case True
  from assms(2) have "do_request cfg e \<noteq> NO_REQUEST" for e
    by (simp add: resolves_def do_request_def)
  with assms(1) True have "c' = c"
    by (auto simp: process_turn_def parse_content_def split: if_splits)
  then show ?thesis by simp
next
  case False
  from assms(2) have nr: "do_request cfg e \<noteq> NO_REQUEST" for e
    by (simp add: resolves_def do_request_def)
  obtain st l where pl: "parse_line c = (st, l)" by (cases "parse_line c")
  have st: "st = LINE_OPEN"
  proof (cases st)
    case LINE_OK
    with assms(1) False pl have "handle_line cfg (m_check_state c) l = (Some NO_REQUEST, c')"
      by (simp add: process_turn_def)
    then show ?thesis using nr
      by (auto simp: handle_line_def Let_def split: if_splits prod.splits)
  next
    case LINE_BAD
    with assms(1) False pl show ?thesis by (simp add: process_turn_def)
  qed
  with assms(1) False pl have c': "c' = l" by (simp add: process_turn_def)
  have cs: "m_check_state l = m_check_state c"
    using pl by (auto simp: parse_line_def split: prod.splits if_splits)
  obtain st2 l2 where p2: "parse_line (grown l y) = (st2, l2)"
    by (cases "parse_line (grown l y)")
  with parse_line_open [OF pl [unfolded st], of y]
  have p1: "parse_line (grown c y) = (st2, l2)" by simp
  show ?thesis unfolding c' using cs False
    by (cases st2) (simp_all add: process_turn_def p1 p2)
qed

lemma process_turn_indices:
  assumes "process_turn cfg c = (x, c')" and "m_start_line c \<le> m_checked_idx c"
  shows "m_start_line c' \<le> m_checked_idx c'" and "m_read_idx c' = m_read_idx c"
proof -
  have "m_start_line c' \<le> m_checked_idx c' \<and> m_read_idx c' = m_read_idx c"
  proof (cases "m_check_state c = CHECK_STATE_CONTENT")
    case True
    with assms show ?thesis
      by (auto simp: process_turn_def parse_content_def m_read_idx_def split: if_splits)
  next
    case False
    obtain st l where pl: "parse_line c = (st, l)" by (cases "parse_line c")
    then have l: "m_start_line l = m_start_line c" "m_checked_idx c \<le> m_checked_idx l"
      "m_read_idx l = m_read_idx c"
      by (auto simp: parse_line_def m_read_idx_def split: prod.splits if_splits)
    show ?thesis
    proof (cases st)
      case LINE_OK
      with assms False pl have "handle_line cfg (m_check_state c) l = (x, c')"
        by (simp add: process_turn_def)
      from handle_line_frame [OF this] l show ?thesis by (simp add: m_read_idx_def)
    qed (use assms False pl l in \<open>auto simp: process_turn_def\<close>)
  qed
  then show "m_start_line c' \<le> m_checked_idx c'" and "m_read_idx c' = m_read_idx c"
    by simp_all
qed

lemma process_read_indices:
  assumes "m_start_line c \<le> m_checked_idx c"
  shows "m_start_line (snd (process_read cfg c)) \<le> m_checked_idx (snd (process_read cfg c)) \<and>
         m_read_idx (snd (process_read cfg c)) = m_read_idx c"
  using assms
proof (induction cfg c rule: process_read.induct)
  case (1 cfg c)
  obtain x c' where t: "process_turn cfg c = (x, c')" by (cases "process_turn cfg c")
  note b = process_turn_indices [OF t "1.prems"]
  show ?case
  proof (cases x)
    case None
    with "1.IH" [OF t [symmetric] None b(1)] t b show ?thesis
      by (subst (1 2 3) process_read.simps) simp
  next
    case (Some ret)
    with t b show ?thesis by (subst (1 2 3) process_read.simps) simp
  qed
qed

lemma process_read_None:
  "process_turn cfg c = (None, c') \<Longrightarrow> process_read cfg c = process_read cfg c'"
  by (subst process_read.simps) simp

lemma process_read_Some:
  "process_turn cfg c = (Some ret, c') \<Longrightarrow> process_read cfg c = (ret, c')"
  by (subst process_read.simps) simp

lemma process_read_resumes:
  assumes "resolves cfg" and "process_read cfg c = (NO_REQUEST, c')"
    and "m_start_line c \<le> m_checked_idx c"
  shows "process_read cfg (grown c y) = process_read cfg (grown c' y)"
  using assms
proof (induction cfg c arbitrary: c' rule: process_read.induct)
  case (1 cfg c)
  obtain x c1 where t: "process_turn cfg c = (x, c1)" by (cases "process_turn cfg c")
  show ?case
  proof (cases x)
    case None
    with t "1.prems"(2) have r: "process_read cfg c1 = (NO_REQUEST, c')"
      by (simp add: process_read_None)
    from t None "1.prems"(3) have "process_turn cfg (grown c y) = (None, grown c1 y)"
      by (intro process_turn_None) simp_all
    then have "process_read cfg (grown c y) = process_read cfg (grown c1 y)"
      by (rule process_read_None)
    with "1.IH" [OF t [symmetric] None "1.prems"(1) r process_turn_indices(1) [OF t "1.prems"(3)]]
    show ?thesis by simp
  next
    case (Some r0)
    with t "1.prems"(2) have eq: "r0 = NO_REQUEST" "c1 = c'"
      by (simp_all add: process_read_Some)
    with t Some have "process_turn cfg c = (Some NO_REQUEST, c')" by simp
    from process_turn_resumes [OF this "1.prems"(1), of y]
    show ?thesis
      by (subst process_read.simps, subst (2) process_read.simps) simp
  qed
qed

lemma process_read_decided:
  assumes "process_read cfg c = (ret, c')" and "ret \<noteq> NO_REQUEST"
    and "m_start_line c \<le> m_checked_idx c"
  shows "consumed (snd (process_read cfg (grown c y))) = consumed c'"
  using assms
proof (induction cfg c arbitrary: c' rule: process_read.induct)
  case (1 cfg c)
  obtain x c1 where t: "process_turn cfg c = (x, c1)" by (cases "process_turn cfg c")
  show ?case
  proof (cases x)
    case None
    with t "1.prems"(1) have r: "process_read cfg c1 = (ret, c')"
      by (simp add: process_read_None)
    from t None "1.prems"(3) have "process_turn cfg (grown c y) = (None, grown c1 y)"
      by (intro process_turn_None) simp_all
    then have "process_read cfg (grown c y) = process_read cfg (grown c1 y)"
      by (rule process_read_None)
    with "1.IH" [OF t [symmetric] None r "1.prems"(2) process_turn_indices(1) [OF t "1.prems"(3)]]
    show ?thesis by simp
  next
    case (Some r0)
    with t "1.prems"(1) have eq: "r0 = ret" "c1 = c'"
      by (simp_all add: process_read_Some)
    with t Some have "process_turn cfg c = (Some ret, c')" by simp
    from process_turn_decided [OF this "1.prems"(2,3), of y]
    obtain ret' c'' where "process_turn cfg (grown c y) = (Some ret', c'')"
      and "consumed c'' = consumed c'"
      by blast
    then show ?thesis by (simp add: process_read_Some)
  qed
qed

subsection \<open>Feeding a request in pieces\<close>

lemma read_once_grown:
  "read_once c x = grown c (take (READ_BUFFER_SIZE - length (m_read_buf c)) x)"
  by (simp add: read_once_def grown_def m_read_idx_def)

lemma read_once_fits:
  assumes "length (m_read_buf c) + length x \<le> READ_BUFFER_SIZE"
  shows "read_once c x = grown c x"
  using assms by (simp add: read_once_grown)

lemma process_read_again:
  assumes "resolves cfg" and "process_read cfg c = (NO_REQUEST, c')"
    and "m_start_line c \<le> m_checked_idx c"
  shows "process_read cfg c' = (NO_REQUEST, c')"
  using process_read_resumes [OF assms, of "[]"] assms(2) by simp

lemma feed_indices:
  assumes "m_start_line c \<le> m_checked_idx c"
  shows "m_start_line (snd (feed cfg c x)) \<le> m_checked_idx (snd (feed cfg c x))"
proof -
  have "m_start_line (read_once c x) \<le> m_checked_idx (read_once c x)"
    using assms by (simp add: read_once_def)
  from process_read_indices [OF this] show ?thesis by (simp add: feed_def)
qed

lemma feed_resumes:
  assumes "resolves cfg" and "feed cfg c x = (NO_REQUEST, c')"
    and "m_start_line c \<le> m_checked_idx c"
  shows "feed cfg c' y = feed cfg c (x @ y)"
proof -
  let ?n = "READ_BUFFER_SIZE - length (m_read_buf c)"
  from assms(2) have p: "process_read cfg (grown c (take ?n x)) = (NO_REQUEST, c')"
    by (simp add: feed_def read_once_grown)
  have i: "m_start_line (grown c z) \<le> m_checked_idx (grown c z)" for z
    using assms(3) by simp
  from process_read_indices [OF i, of cfg "take ?n x"] p
  have b: "length (m_read_buf c') = length (m_read_buf c) + length (take ?n x)"
    by (simp add: m_read_idx_def)
  show ?thesis
  proof (cases "length x \<le> ?n")
    case True
    then have t: "take ?n (x @ y) = x @ take (?n - length x) y" by simp
    from True p have px: "process_read cfg (grown c x) = (NO_REQUEST, c')" by simp
    have "read_once c (x @ y) = grown (grown c x) (take (?n - length x) y)"
      unfolding read_once_grown t grown_grown ..
    then have "feed cfg c (x @ y) = process_read cfg (grown (grown c x) (take (?n - length x) y))"
      by (simp only: feed_def)
    also have "\<dots> = process_read cfg (grown c' (take (?n - length x) y))"
      using assms(1) px i by (rule process_read_resumes)
    also have "\<dots> = feed cfg c' y"
      using b True by (simp add: feed_def read_once_grown)
    finally show ?thesis by simp
  next
    case False
    then have t: "take ?n (x @ y) = take ?n x" by simp
    have "read_once c (x @ y) = grown c (take ?n x)"
      unfolding read_once_grown t ..
    then have 1: "feed cfg c (x @ y) = (NO_REQUEST, c')"
      using p by (simp only: feed_def)
    from b False have "READ_BUFFER_SIZE - length (m_read_buf c') = 0" by simp
    then have "feed cfg c' y = process_read cfg c'"
      by (simp add: feed_def read_once_grown)
    with process_read_again [OF assms(1) p i] 1 show ?thesis by simp
  qed
qed

lemma feed_each_batch:
  assumes "resolves cfg" and "bytes \<noteq> []"
    and "\<forall>k. 0 < k \<and> k < length bytes \<longrightarrow> fst (feed cfg c (take k bytes)) = NO_REQUEST"
    and "m_start_line c \<le> m_checked_idx c"
  shows "feed_each cfg c bytes =
           (replicate (length bytes - 1) NO_REQUEST @ [fst (feed cfg c bytes)],
            snd (feed cfg c bytes))"
  using assms(2-)
proof (induction bytes arbitrary: c)
  case Nil
  then show ?case by simp
next
  case (Cons b bs)
  obtain r1 c1 where f1: "feed cfg c [b] = (r1, c1)" by (cases "feed cfg c [b]")
  show ?case
  proof (cases "bs = []")
    case True
    with f1 show ?thesis by simp
  next
    case False
    from Cons.prems(2) [rule_format, of 1] False f1 have r1: "r1 = NO_REQUEST" by simp
    have res: "feed cfg c1 y = feed cfg c ([b] @ y)" for y
      using feed_resumes [OF assms(1) _ Cons.prems(3)] f1 r1 by simp
    have pre: "\<forall>k. 0 < k \<and> k < length bs \<longrightarrow> fst (feed cfg c1 (take k bs)) = NO_REQUEST"
    proof (intro allI impI)
      fix k assume k: "0 < k \<and> k < length bs"
      from res [of "take k bs"]
      have "feed cfg c1 (take k bs) = feed cfg c (take (Suc k) (b # bs))" by simp
      with Cons.prems(2) [rule_format, of "Suc k"] k
      show "fst (feed cfg c1 (take k bs)) = NO_REQUEST" by simp
    qed
    from feed_indices [OF Cons.prems(3), of cfg "[b]"] f1
    have i1: "m_start_line c1 \<le> m_checked_idx c1" by simp
    from Cons.IH [OF False pre i1] res [of bs]
    have "feed_each cfg c1 bs =
            (replicate (length bs - 1) NO_REQUEST @ [fst (feed cfg c (b # bs))],
             snd (feed cfg c (b # bs)))"
      by simp
    with f1 r1 False show ?thesis
      by (cases bs) simp_all
  qed
qed

subsection \<open>Parsing a well-formed request\<close>

lemma int32_id: "- 2147483648 \<le> i \<Longrightarrow> i \<le> INT_MAX \<Longrightarrow> int32 i = i"
  by (simp add: int32_def INT_MAX_def)

lemma scan_clean: "clean line \<Longrightarrow> scan (line @ CR # LF # rest) = (LINE_OK, length line + 2)"
  by (induction line) (auto simp: clean_def split: prod.splits)

lemma end_line_at:
  "end_line (pre @ line @ CR # LF # rest) (length pre + length line + 2) =
     pre @ line @ NUL # NUL # rest"
proof -
  have 1: "(pre @ line @ CR # LF # rest)[length pre + length line := NUL] =
           pre @ line @ NUL # LF # rest"
    using list_update_length [of "pre @ line" CR "LF # rest" NUL] by simp
  have 2: "(pre @ line @ NUL # LF # rest)[length pre + length line + 1 := NUL] =
           pre @ line @ NUL # NUL # rest"
    using list_update_length [of "pre @ line @ [NUL]" LF rest NUL] by simp
  show ?thesis unfolding end_line_def using 1 2 by simp
qed

lemma parse_line_clean:
  assumes "m_read_buf c = pre @ line @ CR # LF # rest" and "m_checked_idx c = length pre"
    and "clean line"
  shows "parse_line c =
           (LINE_OK, c\<lparr>m_read_buf := pre @ line @ NUL # NUL # rest,
                        m_checked_idx := length pre + length line + 2\<rparr>)"
proof -
  have "scan (drop (m_checked_idx c) (m_read_buf c)) = (LINE_OK, length line + 2)"
    using assms scan_clean [of line rest] by simp
  from parse_line_eq [OF this] assms(1,2) end_line_at [of pre line rest]
  show ?thesis by (simp add: add.assoc)
qed

lemma get_line_clean:
  assumes "m_read_buf l = pre @ line @ NUL # rest" and "m_start_line l = length pre"
    and "clean line"
  shows "get_line l = line"
proof -
  from assms(3) have "\<forall>ch\<in>set line. ch \<noteq> NUL" by (auto simp: clean_def)
  then have "takeWhile (\<lambda>ch. ch \<noteq> NUL) (line @ NUL # rest) = line"
    by (simp add: takeWhile_tail)
  with assms(1,2) show ?thesis by (simp add: get_line_def)
qed

lemma process_turn_clean:
  assumes "m_read_buf c = pre @ line @ CR # LF # rest" and "m_checked_idx c = length pre"
    and "m_start_line c = length pre" and "clean line"
    and "m_check_state c \<noteq> CHECK_STATE_CONTENT"
  shows "process_turn cfg c =
           handle_line cfg (m_check_state c)
             (c\<lparr>m_read_buf := pre @ line @ NUL # NUL # rest,
                m_checked_idx := length pre + length line + 2\<rparr>)"
    and "get_line (c\<lparr>m_read_buf := pre @ line @ NUL # NUL # rest,
                      m_checked_idx := length pre + length line + 2\<rparr>) = line"
proof -
  let ?l = "c\<lparr>m_read_buf := pre @ line @ NUL # NUL # rest,
               m_checked_idx := length pre + length line + 2\<rparr>"
  have pl: "parse_line c = (LINE_OK, ?l)"
    using assms(1,2,4) by (rule parse_line_clean)
  show "get_line ?l = line"
    by (rule get_line_clean [where pre = pre and rest = "NUL # rest"]) (use assms in simp_all)
  show "process_turn cfg c = handle_line cfg (m_check_state c) ?l"
    using assms(5) pl by (simp add: process_turn_def)
qed

lemma process_turn_request_line:
  assumes "m_read_buf c = pre @ line @ CR # LF # rest" and "m_checked_idx c = length pre"
    and "m_start_line c = length pre" and "clean line"
    and "m_check_state c = CHECK_STATE_REQUESTLINE"
    and "parse_request_line cfg line
           (c\<lparr>m_read_buf := pre @ line @ NUL # NUL # rest,
              m_checked_idx := length pre + length line + 2,
              m_start_line := length pre + length line + 2\<rparr>) = (NO_REQUEST, e)"
  shows "process_turn cfg c = (None, e)"
proof -
  have ns: "m_check_state c \<noteq> CHECK_STATE_CONTENT" using assms(5) by simp
  note t = process_turn_clean [OF assms(1-4) ns]
  show ?thesis
    unfolding t(1) handle_line_def t(2) Let_def using assms(5,6) by simp
qed

lemma process_turn_header:
  assumes "m_read_buf c = pre @ line @ CR # LF # rest" and "m_checked_idx c = length pre"
    and "m_start_line c = length pre" and "clean line"
    and "m_check_state c = CHECK_STATE_HEADER"
    and "parse_headers line
           (c\<lparr>m_read_buf := pre @ line @ NUL # NUL # rest,
              m_checked_idx := length pre + length line + 2,
              m_start_line := length pre + length line + 2\<rparr>) = (ret, e)"
  shows "process_turn cfg c =
           (if ret = BAD_REQUEST then (Some BAD_REQUEST, e)
            else if ret = GET_REQUEST then (Some (do_request cfg e), e) else (None, e))"
proof -
  have ns: "m_check_state c \<noteq> CHECK_STATE_CONTENT" using assms(5) by simp
  note t = process_turn_clean [OF assms(1-4) ns]
  show ?thesis
    unfolding t(1) handle_line_def t(2) Let_def using assms(5,6) by simp
qed

lemma method_of_token:
  assumes "method_of m = Some x"
  shows "no_space m" and "clean m"
proof -
  from assms have "m \<in> {''GET'', ''POST'', ''HEAD'', ''PUT'', ''DELETE'', ''TRACE'', ''OPTIONS'',
      ''CONNECT'', ''PATH''}"
    by (auto simp: method_of_def split: if_splits)
  then show "no_space m" and "clean m"
    by (auto simp: no_space_def clean_def CR_def LF_def NUL_def)
qed

lemma token_first: "no_space m \<Longrightarrow> token (m @ CHR '' '' # rest) = m"
  by (induction m) (auto simp: token_def no_space_def)

lemma after_token_first: "no_space m \<Longrightarrow> after_token (m @ CHR '' '' # rest) = Some rest"
  by (induction m) (auto simp: after_token_def no_space_def)

lemma parse_request_line_well_formed:
  assumes "well_formed method url version headers" and "method_of method = Some x"
  shows "parse_request_line cfg (request_line method url version) c =
           (NO_REQUEST,
            c\<lparr>m_method := x, cgi := (if x = POST then 1 else 0), m_url := path_of cfg url,
              m_version := version, m_check_state := CHECK_STATE_HEADER\<rparr>)"
proof -
  from assms have u: "no_space url" and v: "version \<noteq> []" by (simp_all add: well_formed_def)
  note m = method_of_token(1) [OF assms(2)]
  have 1: "after_token (request_line method url version) = Some (url @ CHR '' '' # version)"
    unfolding request_line_def using m by (rule after_token_first)
  have 2: "token (request_line method url version) = method"
    unfolding request_line_def using m by (rule token_first)
  have 3: "after_token (url @ CHR '' '' # version) = Some version"
    using u by (rule after_token_first)
  have 4: "token (url @ CHR '' '' # version) = url"
    using u by (rule token_first)
  show ?thesis
    using assms(2) v by (simp add: parse_request_line_def 1 2 3 4)
qed

lemma clean_request_line:
  assumes "well_formed method url version headers"
  shows "clean (request_line method url version)"
proof -
  from assms obtain x where "method_of method = Some x" by (auto simp: well_formed_def)
  from method_of_token(2) [OF this] assms show ?thesis
    by (auto simp: clean_def request_line_def well_formed_def CR_def LF_def NUL_def)
qed

lemma parse_headers_line:
  assumes "h \<noteq> []"
  shows "fst (parse_headers h c) = NO_REQUEST"
    and "m_read_buf (snd (parse_headers h c)) = m_read_buf c"
    and "m_checked_idx (snd (parse_headers h c)) = m_checked_idx c"
    and "m_start_line (snd (parse_headers h c)) = m_start_line c"
    and "m_check_state (snd (parse_headers h c)) = m_check_state c"
    and "m_method (snd (parse_headers h c)) = m_method c"
    and "m_url (snd (parse_headers h c)) = m_url c"
    and "m_string (snd (parse_headers h c)) = m_string c"
    and "m_content_length (snd (parse_headers h c)) =
           (case header_value ''Connection:'' h of
              Some v \<Rightarrow> m_content_length c
            | None \<Rightarrow> (case header_value ''Content-Length:'' h of
                         Some v \<Rightarrow> int32 (int (number_of v)) | None \<Rightarrow> m_content_length c))"
  using assms by (simp_all add: parse_headers_def split: option.splits)

lemma ended_Cons: "ended (h # hs) = h @ NUL # NUL # ended hs"
  by (simp add: ended_def)

lemma length_ended: "length (ended hs) = length (concat (map (\<lambda>h. h @ crlf) hs))"
  by (induction hs) (simp_all add: ended_def crlf_def)

lemma process_read_headers:
  assumes "list_all (\<lambda>h. h \<noteq> [] \<and> clean h) hs"
    and "m_check_state c = CHECK_STATE_HEADER"
    and "m_checked_idx c = length pre" and "m_start_line c = length pre"
    and "m_read_buf c = pre @ concat (map (\<lambda>h. h @ crlf) hs) @ rest"
    and "m_content_length c = int32 (int n)"
  shows "process_read cfg c = process_read cfg (run_headers hs c) \<and>
         m_read_buf (run_headers hs c) = pre @ ended hs @ rest \<and>
         m_check_state (run_headers hs c) = CHECK_STATE_HEADER \<and>
         m_method (run_headers hs c) = m_method c \<and>
         m_url (run_headers hs c) = m_url c \<and>
         m_string (run_headers hs c) = m_string c \<and>
         m_checked_idx (run_headers hs c) = length pre + length (ended hs) \<and>
         m_start_line (run_headers hs c) = length pre + length (ended hs) \<and>
         m_content_length (run_headers hs c) = int32 (int (declared_length n hs))"
  using assms
proof (induction hs arbitrary: c pre n)
  case Nil
  then show ?case by (simp add: ended_def)
next
  case (Cons h hs)
  from Cons.prems(1) have h: "h \<noteq> []" "clean h"
    and hs: "list_all (\<lambda>h. h \<noteq> [] \<and> clean h) hs" by simp_all
  let ?rest = "concat (map (\<lambda>h. h @ crlf) hs) @ rest"
  have buf: "m_read_buf c = pre @ h @ CR # LF # ?rest"
    using Cons.prems(5) by (simp add: crlf_def)
  let ?d = "c\<lparr>m_read_buf := pre @ h @ NUL # NUL # ?rest,
               m_checked_idx := length pre + length h + 2,
               m_start_line := length pre + length h + 2\<rparr>"
  have d: "c\<lparr>m_read_buf := end_line (m_read_buf c) (m_checked_idx c + length h + 2),
             m_checked_idx := m_checked_idx c + length h + 2,
             m_start_line := m_checked_idx c + length h + 2\<rparr> = ?d"
    unfolding buf Cons.prems(3) end_line_at ..
  define e where "e = snd (parse_headers h ?d)"
  define n' where "n' = (case header_value ''Connection:'' h of
          Some v \<Rightarrow> n
        | None \<Rightarrow> (case header_value ''Content-Length:'' h of Some v \<Rightarrow> number_of v | None \<Rightarrow> n))"
  note p = parse_headers_line [OF h(1), of ?d, folded e_def]
  have r: "run_headers (h # hs) c = run_headers hs e"
    unfolding e_def run_headers.simps d ..
  have dl: "declared_length n (h # hs) = declared_length n' hs"
    by (simp add: n'_def)
  have ph: "parse_headers h ?d = (NO_REQUEST, e)"
    using p(1) by (simp add: e_def prod_eq_iff)
  have "process_turn cfg c = (None, e)"
    using process_turn_header [OF buf Cons.prems(3) Cons.prems(4) h(2) Cons.prems(2) ph, of cfg]
    by simp
  then have 1: "process_read cfg c = process_read cfg e" by (rule process_read_None)
  have e: "m_check_state e = CHECK_STATE_HEADER"
    "m_checked_idx e = length (pre @ h @ [NUL, NUL])"
    "m_start_line e = length (pre @ h @ [NUL, NUL])"
    "m_read_buf e = (pre @ h @ [NUL, NUL]) @ concat (map (\<lambda>h. h @ crlf) hs) @ rest"
    "m_content_length e = int32 (int n')"
    "m_method e = m_method c" "m_url e = m_url c" "m_string e = m_string c"
    unfolding p using Cons.prems(2,6) by (simp_all add: n'_def split: option.splits)
  note ih = Cons.IH [OF hs e(1-5)]
  show ?case
    unfolding r dl 1 ended_Cons using ih e(6-8) by simp
qed

lemma process_read_blank:
  assumes "m_check_state c = CHECK_STATE_HEADER"
    and "m_checked_idx c = length pre" and "m_start_line c = length pre"
    and "m_read_buf c = pre @ crlf @ body"
  shows "fst (process_read cfg c) =
           (if m_method c = POST \<and> 0 < m_content_length c then
              (if int32 (int (length pre + 2) + m_content_length c) \<le>
                    int (length pre + 2 + length body)
               then resolve cfg POST (m_url c) (take (nat (m_content_length c)) body)
               else NO_REQUEST)
            else resolve cfg (m_method c) (m_url c) (m_string c))"
    and "consumed (snd (process_read cfg c)) =
           (if m_method c = POST \<and> 0 < m_content_length c
            then nat (int32 (int (length pre + 2) + m_content_length c))
            else length pre + 2)"
proof -
  have buf: "m_read_buf c = pre @ [] @ CR # LF # body"
    using assms(4) by (simp add: crlf_def)
  have cl: "clean []" by (simp add: clean_def)
  let ?d = "c\<lparr>m_read_buf := pre @ [] @ NUL # NUL # body,
               m_checked_idx := length pre + length ([] :: string) + 2,
               m_start_line := length pre + length ([] :: string) + 2\<rparr>"
  have t: "process_turn cfg c =
           (if ret = BAD_REQUEST then (Some BAD_REQUEST, e)
            else if ret = GET_REQUEST then (Some (do_request cfg e), e) else (None, e))"
    if "parse_headers [] ?d = (ret, e)" for ret e
    using process_turn_header [OF buf assms(2) assms(3) cl assms(1) that, of cfg] .
  have "fst (process_read cfg c) =
           (if m_method c = POST \<and> 0 < m_content_length c then
              (if int32 (int (length pre + 2) + m_content_length c) \<le>
                    int (length pre + 2 + length body)
               then resolve cfg POST (m_url c) (take (nat (m_content_length c)) body)
               else NO_REQUEST)
            else resolve cfg (m_method c) (m_url c) (m_string c)) \<and>
        consumed (snd (process_read cfg c)) =
           (if m_method c = POST \<and> 0 < m_content_length c
            then nat (int32 (int (length pre + 2) + m_content_length c))
            else length pre + 2)"
  proof (cases "m_method c = POST \<and> 0 < m_content_length c")
    case False
    then have "parse_headers [] ?d = (GET_REQUEST, ?d)"
      by (simp add: parse_headers_def)
    from t [OF this] have "process_turn cfg c = (Some (do_request cfg ?d), ?d)" by simp
    from process_read_Some [OF this] show ?thesis
      unfolding if_not_P [OF False] using assms(1) by (simp add: do_request_def consumed_def)
  next
    case True
    let ?e = "?d\<lparr>m_check_state := CHECK_STATE_CONTENT\<rparr>"
    from True have "parse_headers [] ?d = (NO_REQUEST, ?e)"
      by (simp add: parse_headers_def)
    from t [OF this] have "process_turn cfg c = (None, ?e)" by simp
    then have 1: "process_read cfg c = process_read cfg ?e" by (rule process_read_None)
    show ?thesis
    proof (cases "int32 (int (length pre + 2) + m_content_length c) \<le>
                    int (length pre + 2 + length body)")
      case le: True
      let ?f = "?e\<lparr>m_string := take (nat (m_content_length c)) body\<rparr>"
      have "process_turn cfg ?e = (Some (do_request cfg ?f), ?f)"
        using le by (simp add: process_turn_def parse_content_def m_read_idx_def)
      from process_read_Some [OF this] show ?thesis
        unfolding 1 if_P [OF True] if_P [OF le] using True
        by (simp add: do_request_def consumed_def)
    next
      case gt: False
      have "process_turn cfg ?e = (Some NO_REQUEST, ?e)"
        using gt by (simp add: process_turn_def parse_content_def m_read_idx_def)
      from process_read_Some [OF this] show ?thesis
        unfolding 1 if_P [OF True] if_not_P [OF gt] by (simp add: consumed_def)
    qed
  qed
  then show "fst (process_read cfg c) =
           (if m_method c = POST \<and> 0 < m_content_length c then
              (if int32 (int (length pre + 2) + m_content_length c) \<le>
                    int (length pre + 2 + length body)
               then resolve cfg POST (m_url c) (take (nat (m_content_length c)) body)
               else NO_REQUEST)
            else resolve cfg (m_method c) (m_url c) (m_string c))"
    and "consumed (snd (process_read cfg c)) =
           (if m_method c = POST \<and> 0 < m_content_length c
            then nat (int32 (int (length pre + 2) + m_content_length c))
            else length pre + 2)"
    by simp_all
qed

lemma parse_request:
  assumes wf: "well_formed method url version headers" and m: "method_of method = Some x"
    and M: "M = int32 (int (declared_length 0 headers))"
    and L: "L = length (header_block (request_line method url version) headers)"
  shows "fst (process_read cfg (grown init (header_block (request_line method url version) headers @ body))) =
           (if x = POST \<and> 0 < M then
              (if int32 (int L + M) \<le> int L + int (length body)
               then resolve cfg POST (path_of cfg url) (take (nat M) body)
               else NO_REQUEST)
            else resolve cfg x (path_of cfg url) [])"
    and "consumed (snd (process_read cfg (grown init
            (header_block (request_line method url version) headers @ body)))) =
           (if x = POST \<and> 0 < M then nat (int32 (int L + M)) else L)"
proof -
  let ?rl = "request_line method url version"
  let ?hs = "concat (map (\<lambda>h. h @ crlf) headers)"
  let ?H = "header_block ?rl headers"
  define c0 where "c0 = grown init (?H @ body)"
  have f: "process_read cfg (grown init (?H @ body)) = process_read cfg c0"
    by (simp add: c0_def)
  have c0: "m_read_buf c0 = [] @ ?rl @ CR # LF # (?hs @ crlf @ body)"
    "m_checked_idx c0 = length ([] :: string)" "m_start_line c0 = length ([] :: string)"
    "m_check_state c0 = CHECK_STATE_REQUESTLINE" "m_content_length c0 = 0" "m_string c0 = []"
    by (simp_all add: c0_def init_def header_block_def crlf_def grown_def)
  let ?d = "c0\<lparr>m_read_buf := [] @ ?rl @ NUL # NUL # (?hs @ crlf @ body),
               m_checked_idx := length ([] :: string) + length ?rl + 2,
               m_start_line := length ([] :: string) + length ?rl + 2\<rparr>"
  define e1 where
    "e1 = ?d\<lparr>m_method := x, cgi := (if x = POST then 1 else 0), m_url := path_of cfg url,
              m_version := version, m_check_state := CHECK_STATE_HEADER\<rparr>"
  have "parse_request_line cfg ?rl ?d = (NO_REQUEST, e1)"
    unfolding e1_def using wf m by (rule parse_request_line_well_formed)
  from process_turn_request_line [OF c0(1) c0(2) c0(3) clean_request_line [OF wf] c0(4) this]
  have 1: "process_read cfg c0 = process_read cfg e1" by (rule process_read_None)
  have la: "list_all (\<lambda>h. h \<noteq> [] \<and> clean h) headers"
    using wf by (simp add: well_formed_def)
  have e1: "m_check_state e1 = CHECK_STATE_HEADER" "m_checked_idx e1 = length (?rl @ [NUL, NUL])"
    "m_start_line e1 = length (?rl @ [NUL, NUL])"
    "m_read_buf e1 = (?rl @ [NUL, NUL]) @ ?hs @ (crlf @ body)"
    "m_content_length e1 = int32 (int 0)"
    "m_method e1 = x" "m_url e1 = path_of cfg url" "m_string e1 = []"
    using c0 by (simp_all add: e1_def int32_def)
  define c2 where "c2 = run_headers headers e1"
  note rh = process_read_headers [OF la e1(1-5), of cfg, folded c2_def]
  from rh have 2: "process_read cfg e1 = process_read cfg c2" by blast
  have c2: "m_check_state c2 = CHECK_STATE_HEADER"
    "m_checked_idx c2 = length ((?rl @ [NUL, NUL]) @ ended headers)"
    "m_start_line c2 = length ((?rl @ [NUL, NUL]) @ ended headers)"
    "m_read_buf c2 = ((?rl @ [NUL, NUL]) @ ended headers) @ crlf @ body"
    "m_method c2 = x" "m_url c2 = path_of cfg url" "m_content_length c2 = M" "m_string c2 = []"
    using rh e1 M by simp_all
  have len: "int (length ((?rl @ [NUL, NUL]) @ ended headers) + 2) = int L"
    "length ((?rl @ [NUL, NUL]) @ ended headers) + 2 = L"
    unfolding L by (simp_all add: header_block_def crlf_def length_ended)
  have len2: "int (L + length body) = int L + int (length body)" by simp
  note b = process_read_blank [OF c2(1-4), of cfg, unfolded c2(5-8) len len2]
  have r: "process_read cfg (grown init (?H @ body)) = process_read cfg c2"
    unfolding f 1 2 ..
  show "fst (process_read cfg (grown init (?H @ body))) =
           (if x = POST \<and> 0 < M then
              (if int32 (int L + M) \<le> int L + int (length body)
               then resolve cfg POST (path_of cfg url) (take (nat M) body)
               else NO_REQUEST)
            else resolve cfg x (path_of cfg url) [])"
    unfolding r b(1) ..
  show "consumed (snd (process_read cfg (grown init (?H @ body)))) =
           (if x = POST \<and> 0 < M then nat (int32 (int L + M)) else L)"
    unfolding r b(2) ..
qed

lemma parse_line_bound:
  assumes "parse_line c = (st, l)" and "st \<noteq> LINE_OPEN"
  shows "m_checked_idx l \<le> length (m_read_buf c)" and "m_check_state l = m_check_state c"
proof -
  from assms(1) obtain k where k: "scan (drop (m_checked_idx c) (m_read_buf c)) = (st, k)"
    and l: "l = (if st = LINE_OK
               then c\<lparr>m_read_buf := end_line (m_read_buf c) (m_checked_idx c + k),
                      m_checked_idx := m_checked_idx c + k\<rparr>
               else c\<lparr>m_checked_idx := m_checked_idx c + k\<rparr>)"
    by (rule parse_line_scan)
  from scan_Nil_status [OF k assms(2)] have "m_checked_idx c < length (m_read_buf c)" by simp
  with scan_bound [OF k] l show "m_checked_idx l \<le> length (m_read_buf c)" by simp
  from l show "m_check_state l = m_check_state c" by simp
qed

lemma handle_line_state:
  assumes "handle_line cfg state l = (Some ret, c')"
  shows "m_check_state c' = m_check_state l"
  using assms
  by (auto simp: handle_line_def Let_def parse_request_line_def parse_headers_def
      split: if_splits option.splits prod.splits)

lemma process_turn_consumed:
  assumes "process_turn cfg c = (Some ret, c')" and "ret \<noteq> NO_REQUEST"
  shows "consumed c' \<le> length (m_read_buf c)"
proof (cases "m_check_state c = CHECK_STATE_CONTENT")
  case True
  with assms show ?thesis
    by (auto simp: process_turn_def parse_content_def consumed_def m_read_idx_def split: if_splits)
next
  case False
  obtain st l where pl: "parse_line c = (st, l)" by (cases "parse_line c")
  with assms False have st: "st \<noteq> LINE_OPEN" by (auto simp: process_turn_def)
  note b = parse_line_bound [OF pl st]
  show ?thesis
  proof (cases st)
    case LINE_OPEN
    with st show ?thesis by simp
  next
    case LINE_BAD
    with assms(1) False pl have "c' = l" by (simp add: process_turn_def)
    with b False show ?thesis by (simp add: consumed_def)
  next
    case LINE_OK
    with assms(1) False pl have h: "handle_line cfg (m_check_state c) l = (Some ret, c')"
      by (simp add: process_turn_def)
    from handle_line_state [OF h] handle_line_frame(2) [OF h] b False
    show ?thesis by (simp add: consumed_def)
  qed
qed

lemma process_read_consumed:
  assumes "process_read cfg c = (ret, c')" and "ret \<noteq> NO_REQUEST"
  shows "consumed c' \<le> length (m_read_buf c)"
  using assms
proof (induction cfg c arbitrary: ret c' rule: process_read.induct)
  case (1 cfg c)
  obtain x c1 where t: "process_turn cfg c = (x, c1)" by (cases "process_turn cfg c")
  show ?case
  proof (cases x)
    case None
    with t "1.prems"(1) have r: "process_read cfg c1 = (ret, c')"
      by (simp add: process_read_None)
    from t None have "process_turn cfg c = (None, c1)" by simp
    from "1.IH" [OF t [symmetric] None r "1.prems"(2)] process_turn_goes_on(1) [OF this]
    show ?thesis by (simp add: m_read_idx_def)
  next
    case (Some r0)
    with t "1.prems"(1) have "ret = r0" "c' = c1"
      by (simp_all add: process_read_Some)
    with t Some "1.prems"(2) show ?thesis
      using process_turn_consumed [of cfg c ret c'] by simp
  qed
qed

lemma method_of_POST: "method_of method = Some POST \<longleftrightarrow> method = ''POST''"
  by (simp add: method_of_def)

text \<open>
  The request as a whole, when its length is within the range of an \<^verbatim>\<open>int\<close>: the answer
  is the resolution, and the parser has got to the end of the request.
\<close>

lemma parse_whole:
  assumes wf: "well_formed method url version headers" and m: "method_of method = Some x"
    and body: "length body = body_length method headers"
    and req: "request = header_block (request_line method url version) headers @ body"
    and fit: "int (length request) \<le> INT_MAX"
  shows "fst (process_read cfg (grown init request)) = resolve cfg x (path_of cfg url) body"
    and "consumed (snd (process_read cfg (grown init request))) = length request"
proof -
  define N where "N = declared_length 0 headers"
  define L where "L = length (header_block (request_line method url version) headers)"
  define M where "M = int32 (int N)"
  have x: "x = POST \<longleftrightarrow> method = ''POST''"
    using m method_of_POST [of "method"] by auto
  have len: "length request = L + length body" unfolding req L_def by simp
  note p = parse_request [OF wf m M_def [unfolded N_def] L_def, of cfg body, folded req]
  show "fst (process_read cfg (grown init request)) = resolve cfg x (path_of cfg url) body"
    and "consumed (snd (process_read cfg (grown init request))) = length request"
  proof -
    have "fst (process_read cfg (grown init request)) = resolve cfg x (path_of cfg url) body \<and>
          consumed (snd (process_read cfg (grown init request))) = length request"
    proof (cases "x = POST")
      case False
      with body x have "body = []" by (simp add: body_length_def)
      with False len show ?thesis unfolding p by simp
    next
      case True
      with body x have b: "length body = N" by (simp add: body_length_def N_def)
      from fit len b have "int L + int N \<le> INT_MAX" by simp
      then have M: "M = int N" and s: "int32 (int L + int N) = int L + int N"
        unfolding M_def by (simp_all add: int32_id)
      show ?thesis
      proof (cases "0 < N")
        case pos: True
        with True b len show ?thesis unfolding p M s by simp
      next
        case False
        with b have "body = []" by simp
        with True False len show ?thesis unfolding p M by simp
      qed
    qed
    then show "fst (process_read cfg (grown init request)) = resolve cfg x (path_of cfg url) body"
      and "consumed (snd (process_read cfg (grown init request))) = length request"
      by simp_all
  qed
qed

lemma prefix_needs_more:
  assumes "resolves cfg" and wf: "well_formed method url version headers"
    and body: "length body = body_length method headers"
    and req: "request = header_block (request_line method url version) headers @ body"
    and fit: "int (length request) \<le> INT_MAX"
    and k: "k < length request"
  shows "fst (process_read cfg (grown init (take k request))) = NO_REQUEST"
proof (rule ccontr)
  assume n: "fst (process_read cfg (grown init (take k request))) \<noteq> NO_REQUEST"
  from wf obtain x where m: "method_of method = Some x" by (auto simp: well_formed_def)
  let ?p = "take k request" and ?y = "drop k request"
  obtain r c' where p: "process_read cfg (grown init ?p) = (r, c')"
    by (cases "process_read cfg (grown init ?p)")
  with n have r: "r \<noteq> NO_REQUEST" by simp
  from process_read_consumed [OF p r] k have c: "consumed c' \<le> k"
    by (simp add: init_def)
  have i: "m_start_line (grown init ?p) \<le> m_checked_idx (grown init ?p)"
    by (simp add: init_def)
  have "grown (grown init ?p) ?y = grown init request"
    by (simp add: grown_grown)
  with process_read_decided [OF p r i, of ?y]
  have "consumed (snd (process_read cfg (grown init request))) = consumed c'"
    by simp
  with parse_whole(2) [OF wf m body req fit, of cfg] c k show False by simp
qed

lemma feed_init: "feed cfg init x = process_read cfg (grown init (take READ_BUFFER_SIZE x))"
  by (simp add: feed_def read_once_grown init_def)

lemma example_resolves: "resolves example_config"
  by (simp add: resolves_def example_config_def)

lemma example_declares: "declared_length 0 [''Content-Length: 20''] = 20"
  by (simp add: header_value_def number_of_def is_digit_def)

lemma example_post: "well_formed ''POST'' ''/register'' ''HTTP/1.1'' [''Content-Length: 20'']"
  by (simp add: well_formed_def method_of_def no_space_def clean_def CR_def LF_def NUL_def)

lemma example_get: "well_formed ''GET'' ''/index.html'' ''HTTP/1.1'' [''Host: x'']"
  by (simp add: well_formed_def method_of_def no_space_def clean_def CR_def LF_def NUL_def)

subsection \<open>Incremental and batch parsing\<close>

text \<open>
  Claim C8: incremental parsing is equivalent to batch parsing.  For every well-formed
  request (an enumerated verb, a URL without space, a version, header lines that are
  not empty, none with a bare line terminator byte or a \<open>NUL\<close> byte in it, and a body of
  the length the headers declare when the verb is POST, empty otherwise) whose length is
  within the range of an \<^verbatim>\<open>int\<close>, and every configuration whose resolution does not answer
  \<open>NO_REQUEST\<close>: the parser run on any proper prefix of the request answers \<open>NO_REQUEST\<close>;
  fed one byte at a time the connection answers \<open>NO_REQUEST\<close> to every byte but the last,
  and to the last what it answers when it is fed the whole request at once, ending in the
  same state; and when the request fits the receive buffer that answer is the resolution
  of the parsed request, not \<open>NO_REQUEST\<close>.
\<close>

theorem incremental_is_batch:
  assumes "resolves cfg" and "well_formed method url version headers"
    and "method_of method = Some x"
    and "length body = body_length method headers"
    and "request = header_block (request_line method url version) headers @ body"
    and "int (length request) \<le> INT_MAX"
  shows "(\<forall>k. k < length request \<longrightarrow> fst (feed cfg init (take k request)) = NO_REQUEST) \<and>
         feed_each cfg init request =
           (replicate (length request - 1) NO_REQUEST @ [fst (feed cfg init request)],
            snd (feed cfg init request)) \<and>
         (length request \<le> READ_BUFFER_SIZE \<longrightarrow>
            fst (feed cfg init request) = resolve cfg x (path_of cfg url) body \<and>
            fst (feed cfg init request) \<noteq> NO_REQUEST)"
proof -
  have pre: "fst (feed cfg init (take k request)) = NO_REQUEST" if "k < length request" for k
  proof -
    have "take READ_BUFFER_SIZE (take k request) = take (min READ_BUFFER_SIZE k) request"
      by simp
    moreover have "min READ_BUFFER_SIZE k < length request" using that by simp
    ultimately show ?thesis
      unfolding feed_init
      using prefix_needs_more [OF assms(1,2,4,5,6), of "min READ_BUFFER_SIZE k"] by simp
  qed
  have ne: "request \<noteq> []" unfolding assms(5) by (simp add: header_block_def crlf_def)
  have i: "m_start_line init \<le> m_checked_idx init" by (simp add: init_def)
  have each: "feed_each cfg init request =
           (replicate (length request - 1) NO_REQUEST @ [fst (feed cfg init request)],
            snd (feed cfg init request))"
    using assms(1) ne _ i by (rule feed_each_batch) (simp add: pre)
  have whole: "fst (feed cfg init request) = resolve cfg x (path_of cfg url) body \<and>
            fst (feed cfg init request) \<noteq> NO_REQUEST"
    if fit: "length request \<le> READ_BUFFER_SIZE"
  proof -
    from fit have "feed cfg init request = process_read cfg (grown init request)"
      by (simp add: feed_init)
    with parse_whole(1) [OF assms(2,3,4,5,6), of cfg]
    have "fst (feed cfg init request) = resolve cfg x (path_of cfg url) body" by simp
    with assms(1) show ?thesis by (simp add: resolves_def)
  qed
  from pre each whole show ?thesis by blast
qed

theorem incremental_is_batch_witness:
  "resolves example_config \<and>
   well_formed ''GET'' ''/index.html'' ''HTTP/1.1'' [''Host: x''] \<and>
   method_of ''GET'' = Some GET \<and>
   length ([] :: string) = body_length ''GET'' [''Host: x''] \<and>
   length (header_block (request_line ''GET'' ''/index.html'' ''HTTP/1.1'') [''Host: x'']) = 37 \<and>
   (37 :: int) \<le> INT_MAX \<and>
   37 \<le> READ_BUFFER_SIZE \<and>
   fst (feed example_config init
          (take 36 (header_block (request_line ''GET'' ''/index.html'' ''HTTP/1.1'') [''Host: x'']))) =
     NO_REQUEST \<and>
   fst (feed example_config init
          (header_block (request_line ''GET'' ''/index.html'' ''HTTP/1.1'') [''Host: x''])) =
     FILE_REQUEST \<and>
   fst (feed_each example_config init
          (header_block (request_line ''GET'' ''/index.html'' ''HTTP/1.1'') [''Host: x''])) =
     replicate 36 NO_REQUEST @ [FILE_REQUEST] \<and>
   well_formed ''POST'' ''/register'' ''HTTP/1.1'' [''Content-Length: 20''] \<and>
   length ''01234567890123456789'' = body_length ''POST'' [''Content-Length: 20''] \<and>
   fst (feed_each example_config init
          (header_block (request_line ''POST'' ''/register'' ''HTTP/1.1'') [''Content-Length: 20'']
           @ ''01234567890123456789'')) =
     replicate 66 NO_REQUEST @ [FILE_REQUEST]"
proof -
  let ?r = "header_block (request_line ''GET'' ''/index.html'' ''HTTP/1.1'') [''Host: x'']"
  let ?p = "header_block (request_line ''POST'' ''/register'' ''HTTP/1.1'') [''Content-Length: 20'']
           @ ''01234567890123456789''"
  have m: "method_of ''GET'' = Some GET" by (simp add: method_of_def)
  have b: "length ([] :: string) = body_length ''GET'' [''Host: x'']"
    by (simp add: body_length_def)
  have l: "length ?r = 37" by (simp add: header_block_def request_line_def crlf_def)
  have im: "(37 :: int) \<le> INT_MAX" by (simp add: INT_MAX_def)
  have fit: "37 \<le> READ_BUFFER_SIZE" by (simp add: READ_BUFFER_SIZE_def)
  have r: "?r = ?r @ []" by simp
  from l im have il: "int (length ?r) \<le> INT_MAX" by simp
  note inst = incremental_is_batch [OF example_resolves example_get m b r il]
  from inst l have 1: "fst (feed example_config init (take 36 ?r)) = NO_REQUEST" by simp
  from inst l fit
  have "fst (feed example_config init ?r) =
          resolve example_config GET (path_of example_config ''/index.html'') []"
    by simp
  then have 2: "fst (feed example_config init ?r) = FILE_REQUEST"
    by (simp add: example_config_def path_of_def)
  from inst have "fst (feed_each example_config init ?r) =
      replicate (length ?r - 1) NO_REQUEST @ [fst (feed example_config init ?r)]"
    by simp
  then have 3: "fst (feed_each example_config init ?r) = replicate 36 NO_REQUEST @ [FILE_REQUEST]"
    unfolding 2 l by simp
  have mp: "method_of ''POST'' = Some POST" by (simp add: method_of_def)
  have bp: "length ''01234567890123456789'' = body_length ''POST'' [''Content-Length: 20'']"
    unfolding body_length_def example_declares by simp
  have lp: "length ?p = 67" by (simp add: header_block_def request_line_def crlf_def)
  from lp have ip: "int (length ?p) \<le> INT_MAX" by (simp add: INT_MAX_def)
  from lp have fp: "length ?p \<le> READ_BUFFER_SIZE" by (simp add: READ_BUFFER_SIZE_def)
  note post = incremental_is_batch [OF example_resolves example_post mp bp refl ip]
  from post fp
  have "fst (feed example_config init ?p) =
          resolve example_config POST (path_of example_config ''/register'') ''01234567890123456789''"
    by blast
  then have 4: "fst (feed example_config init ?p) = FILE_REQUEST"
    by (simp add: example_config_def path_of_def)
  from post have "fst (feed_each example_config init ?p) =
      replicate (length ?p - 1) NO_REQUEST @ [fst (feed example_config init ?p)]"
    by simp
  then have 5: "fst (feed_each example_config init ?p) = replicate 66 NO_REQUEST @ [FILE_REQUEST]"
    unfolding 4 lp by simp
  from example_resolves example_get m b l im fit 1 2 3 example_post bp 5 show ?thesis by blast
qed

subsection \<open>The boundary on Content-Length\<close>



subsection \<open>The bound of the send buffer\<close>

lemma add_all_bound:
  assumes "m_write_idx c \<le> WRITE_BUFFER_SIZE"
  shows "m_write_idx (snd (add_all c texts)) \<le> WRITE_BUFFER_SIZE"
  using assms
  by (induction texts arbitrary: c) (simp_all add: add_response_def m_write_idx_def)

lemma add_all_written:
  assumes "fst (add_all c texts)"
  shows "m_write_buf (snd (add_all c texts)) = m_write_buf c @ concat texts"
  using assms
  by (induction texts arbitrary: c) (simp_all add: add_response_def split: if_splits)

lemma add_all_kept: "\<exists>rest. m_write_buf (snd (add_all c texts)) = m_write_buf c @ rest"
proof (induction texts arbitrary: c)
  case Nil
  show ?case by simp
next
  case (Cons t ts)
  show ?case
  proof (cases "WRITE_BUFFER_SIZE < m_write_idx c + length t")
    case True
    then show ?thesis by (simp add: add_response_def)
  next
    case False
    from Cons.IH [of "c\<lparr>m_write_buf := m_write_buf c @ t\<rparr>"]
    obtain rest where
      "m_write_buf (snd (add_all (c\<lparr>m_write_buf := m_write_buf c @ t\<rparr>) ts)) =
       (m_write_buf c @ t) @ rest"
      by auto
    with False show ?thesis by (simp add: add_response_def)
  qed
qed

lemma add_all_overflow:
  assumes "m_write_idx c \<le> WRITE_BUFFER_SIZE"
    and "WRITE_BUFFER_SIZE < m_write_idx c + length (concat texts)"
  shows "\<not> fst (add_all c texts)"
proof
  assume ok: "fst (add_all c texts)"
  from add_all_bound [OF assms(1), of texts] add_all_written [OF ok] assms(2) show False
    by (simp add: m_write_idx_def)
qed

subsection \<open>The formatted append fails closed\<close>

text \<open>
  Claim C9: the formatted append of the response builder fails closed.  A call whose
  text would take the send buffer past \<open>WRITE_BUFFER_SIZE\<close> returns false and writes
  nothing; a call whose text fits appends it and returns true; after either,
  \<^verbatim>\<open>m_write_idx\<close> is within the capacity.  A response built from several appends is
  aborted by the first that fails: it returns false when the texts together do not fit,
  it has written all of them when it returns true, and in every case the bytes written
  before are still there and \<^verbatim>\<open>m_write_idx\<close> is within the capacity.
\<close>

theorem add_response_fails_closed:
  assumes "m_write_idx c \<le> WRITE_BUFFER_SIZE"
  shows "(WRITE_BUFFER_SIZE < m_write_idx c + length text \<longrightarrow> add_response c text = (False, c)) \<and>
         (m_write_idx c + length text \<le> WRITE_BUFFER_SIZE \<longrightarrow>
            add_response c text = (True, c\<lparr>m_write_buf := m_write_buf c @ text\<rparr>)) \<and>
         m_write_idx (snd (add_response c text)) \<le> WRITE_BUFFER_SIZE \<and>
         (WRITE_BUFFER_SIZE < m_write_idx c + length (concat texts) \<longrightarrow>
            \<not> fst (add_all c texts)) \<and>
         (fst (add_all c texts) \<longrightarrow>
            m_write_buf (snd (add_all c texts)) = m_write_buf c @ concat texts) \<and>
         (\<exists>rest. m_write_buf (snd (add_all c texts)) = m_write_buf c @ rest) \<and>
         m_write_idx (snd (add_all c texts)) \<le> WRITE_BUFFER_SIZE"
proof -
  have 1: "WRITE_BUFFER_SIZE < m_write_idx c + length text \<longrightarrow> add_response c text = (False, c)"
    by (simp add: add_response_def)
  have 2: "m_write_idx c + length text \<le> WRITE_BUFFER_SIZE \<longrightarrow>
            add_response c text = (True, c\<lparr>m_write_buf := m_write_buf c @ text\<rparr>)"
    by (simp add: add_response_def)
  have 3: "m_write_idx (snd (add_response c text)) \<le> WRITE_BUFFER_SIZE"
    using assms by (simp add: add_response_def m_write_idx_def)
  from 1 2 3 add_all_overflow [OF assms, of texts] add_all_written [of c texts] add_all_kept [of c texts]
    add_all_bound [OF assms, of texts]
  show ?thesis by blast
qed

theorem add_response_fails_closed_witness:
  "m_write_idx (init\<lparr>m_write_buf := replicate 1020 (CHR ''x'')\<rparr>) \<le> WRITE_BUFFER_SIZE \<and>
   WRITE_BUFFER_SIZE < m_write_idx (init\<lparr>m_write_buf := replicate 1020 (CHR ''x'')\<rparr>) + length ''hello'' \<and>
   add_response (init\<lparr>m_write_buf := replicate 1020 (CHR ''x'')\<rparr>) ''hello'' =
     (False, init\<lparr>m_write_buf := replicate 1020 (CHR ''x'')\<rparr>) \<and>
   m_write_idx (init\<lparr>m_write_buf := replicate 1020 (CHR ''x'')\<rparr>) + length ''hell'' \<le> WRITE_BUFFER_SIZE \<and>
   add_response (init\<lparr>m_write_buf := replicate 1020 (CHR ''x'')\<rparr>) ''hell'' =
     (True, init\<lparr>m_write_buf := replicate 1020 (CHR ''x'') @ ''hell''\<rparr>) \<and>
   WRITE_BUFFER_SIZE < m_write_idx (init\<lparr>m_write_buf := replicate 1020 (CHR ''x'')\<rparr>) +
     length (concat [''he'', ''llo'']) \<and>
   \<not> fst (add_all (init\<lparr>m_write_buf := replicate 1020 (CHR ''x'')\<rparr>) [''he'', ''llo'']) \<and>
   fst (add_all init [''he'', ''llo'']) \<and>
   m_write_buf (snd (add_all init [''he'', ''llo''])) = ''hello''"
proof -
  let ?c = "init\<lparr>m_write_buf := replicate 1020 (CHR ''x'')\<rparr>"
  have a: "m_write_idx ?c \<le> WRITE_BUFFER_SIZE"
    by (simp add: m_write_idx_def WRITE_BUFFER_SIZE_def)
  have b: "WRITE_BUFFER_SIZE < m_write_idx ?c + length ''hello''"
    by (simp add: m_write_idx_def WRITE_BUFFER_SIZE_def)
  have c: "m_write_idx ?c + length ''hell'' \<le> WRITE_BUFFER_SIZE"
    by (simp add: m_write_idx_def WRITE_BUFFER_SIZE_def)
  have d: "WRITE_BUFFER_SIZE < m_write_idx ?c + length (concat [''he'', ''llo''])"
    by (simp add: m_write_idx_def WRITE_BUFFER_SIZE_def)
  have e: "m_write_idx init \<le> WRITE_BUFFER_SIZE"
    by (simp add: m_write_idx_def init_def)
  have f: "fst (add_all init [''he'', ''llo''])"
    by (simp add: add_response_def m_write_idx_def init_def WRITE_BUFFER_SIZE_def)
  note i1 = add_response_fails_closed [OF a, of "''hello''" "[''he'', ''llo'']"]
  note i2 = add_response_fails_closed [OF a, of "''hell''" "[]"]
  note i3 = add_response_fails_closed [OF e, of "[]" "[''he'', ''llo'']"]
  from i1 b have 1: "add_response ?c ''hello'' = (False, ?c)" by blast
  from i2 c have 2: "add_response ?c ''hell'' = (True, ?c\<lparr>m_write_buf := m_write_buf ?c @ ''hell''\<rparr>)"
    by blast
  then have 2: "add_response ?c ''hell'' = (True, init\<lparr>m_write_buf := replicate 1020 (CHR ''x'') @ ''hell''\<rparr>)"
    by simp
  from i1 d have 3: "\<not> fst (add_all ?c [''he'', ''llo''])" by blast
  from i3 f have "m_write_buf (snd (add_all init [''he'', ''llo''])) =
      m_write_buf init @ concat [''he'', ''llo'']"
    by blast
  then have 4: "m_write_buf (snd (add_all init [''he'', ''llo''])) = ''hello''"
    by (simp add: init_def)
  from a b 1 c 2 d 3 f 4 show ?thesis by blast
qed

end
